theory Spec2Isabelle
  imports Complex_Main "HOL-Library.Log_Nat"
begin

unbundle bit_operations_syntax

section \<open>Host numbers and the host \<open>Date\<close> type\<close>

text \<open>
  The module is JavaScript. Its arguments are integral numbers, modelled as \<^typ>\<open>int\<close>.
  A number that may be \<open>NaN\<close> is an \<^typ>\<open>int option\<close>, \<open>None\<close> being \<open>NaN\<close>: every
  comparison with \<open>NaN\<close> is false and every arithmetic operation on it gives \<open>NaN\<close>.
\<close>

type_synonym num = "int option"

definition num_lt :: "num \<Rightarrow> num \<Rightarrow> bool" where
  "num_lt a b = (case (a, b) of (Some x, Some y) \<Rightarrow> x < y | _ \<Rightarrow> False)"

definition num_le :: "num \<Rightarrow> num \<Rightarrow> bool" where
  "num_le a b = (case (a, b) of (Some x, Some y) \<Rightarrow> x \<le> y | _ \<Rightarrow> False)"

definition num_add :: "num \<Rightarrow> num \<Rightarrow> num" where
  "num_add a b = (case (a, b) of (Some x, Some y) \<Rightarrow> Some (x + y) | _ \<Rightarrow> None)"

definition num_sub :: "num \<Rightarrow> num \<Rightarrow> num" where
  "num_sub a b = (case (a, b) of (Some x, Some y) \<Rightarrow> Some (x - y) | _ \<Rightarrow> None)"

text \<open>
  \<open>Date\<close> follows ECMAScript (section "Date Objects"), for a host whose local time zone
  is UTC, so that local midnight is a whole number of days from the epoch 1970-01-01.
  \<open>DayFromYear\<close>, \<open>MakeDay\<close>, \<open>MakeFullYear\<close> (the two-digit-year rule of the
  constructor), \<open>TimeClip\<close>, \<open>YearFromTime\<close>, \<open>MonthFromTime\<close>, \<open>DateFromTime\<close> and
  \<open>WeekDay\<close> are the abstract operations of that section, on day numbers. \<open>MakeDay\<close>
  is taken to find the first day of the month for every integral year and month; the
  constructor then gives an invalid date, through \<open>TimeClip\<close>, when the time is more than
  \<open>8.64e15\<close> milliseconds from the epoch.
\<close>

definition DayFromYear :: "int \<Rightarrow> int" where
  "DayFromYear y =
     365 * (y - 1970) + (y - 1969) div 4 - (y - 1901) div 100 + (y - 1601) div 400"

definition InLeapYear :: "int \<Rightarrow> bool" where
  "InLeapYear y = (y mod 4 = 0 \<and> (y mod 100 \<noteq> 0 \<or> y mod 400 = 0))"

definition DaysInYear :: "int \<Rightarrow> int" where
  "DaysInYear y = (if InLeapYear y then 366 else 365)"

text \<open>The day within the year on which month \<open>mn\<close> (0 = January) starts.\<close>

definition MonthStart :: "int \<Rightarrow> int \<Rightarrow> int" where
  "MonthStart y mn =
     (let leap = (if InLeapYear y then 1 else 0) in
      if mn = 0 then 0 else if mn = 1 then 31
      else if mn = 2 then 59 + leap else if mn = 3 then 90 + leap
      else if mn = 4 then 120 + leap else if mn = 5 then 151 + leap
      else if mn = 6 then 181 + leap else if mn = 7 then 212 + leap
      else if mn = 8 then 243 + leap else if mn = 9 then 273 + leap
      else if mn = 10 then 304 + leap else 334 + leap)"

definition MakeDay :: "int \<Rightarrow> int \<Rightarrow> int \<Rightarrow> int" where
  "MakeDay year month date =
     (let ym = year + month div 12; mn = month mod 12
      in DayFromYear ym + MonthStart ym mn + date - 1)"

definition MakeFullYear :: "int \<Rightarrow> int" where
  "MakeFullYear year = (if 0 \<le> year \<and> year \<le> 99 then 1900 + year else year)"

definition msPerDay :: int where
  "msPerDay = 86400000"

definition TimeClip :: "int \<Rightarrow> num" where
  "TimeClip t = (if \<bar>t\<bar> > 8640000000000000 then None else Some t)"

text \<open>\<open>new Date(year, monthIndex, day)\<close>: the time value in milliseconds, \<open>NaN\<close> for an
  invalid date.\<close>

definition newDate :: "int \<Rightarrow> int \<Rightarrow> int \<Rightarrow> num" where
  "newDate year monthIndex day =
     TimeClip (MakeDay (MakeFullYear year) monthIndex day * msPerDay)"

definition Day :: "int \<Rightarrow> int" where
  "Day t = t div msPerDay"

text \<open>\<open>YearFromTime\<close> is the largest year whose first day is not after the given day. The
  estimate from the mean year length of 146097 / 400 days is off by at most one.\<close>

definition YearFromDay :: "int \<Rightarrow> int" where
  "YearFromDay d =
     (let y0 = 1970 + (400 * d) div 146097
      in if d < DayFromYear y0 then y0 - 1
         else if DayFromYear (y0 + 1) \<le> d then y0 + 1
         else y0)"

definition DayWithinYear :: "int \<Rightarrow> int" where
  "DayWithinYear d = d - DayFromYear (YearFromDay d)"

definition MonthFromDay :: "int \<Rightarrow> int" where
  "MonthFromDay d =
     (let y = YearFromDay d; w = DayWithinYear d in
      if w < MonthStart y 1 then 0 else if w < MonthStart y 2 then 1
      else if w < MonthStart y 3 then 2 else if w < MonthStart y 4 then 3
      else if w < MonthStart y 5 then 4 else if w < MonthStart y 6 then 5
      else if w < MonthStart y 7 then 6 else if w < MonthStart y 8 then 7
      else if w < MonthStart y 9 then 8 else if w < MonthStart y 10 then 9
      else if w < MonthStart y 11 then 10 else 11)"

definition DateFromDay :: "int \<Rightarrow> int" where
  "DateFromDay d = DayWithinYear d - MonthStart (YearFromDay d) (MonthFromDay d) + 1"

definition WeekDay :: "int \<Rightarrow> int" where
  "WeekDay d = (d + 4) mod 7"

text \<open>The methods \<open>getTime\<close>, \<open>getDate\<close> and \<open>getDay\<close> of a \<open>Date\<close> with time value
  \<open>t\<close>; each is \<open>NaN\<close> on an invalid date.\<close>

definition getTime :: "num \<Rightarrow> num" where
  "getTime t = t"

definition getDate :: "num \<Rightarrow> num" where
  "getDate t = map_option (\<lambda>v. DateFromDay (Day v)) t"

definition getDay :: "num \<Rightarrow> num" where
  "getDay t = map_option (\<lambda>v. WeekDay (Day v)) t"

section \<open>Lunar table decoder\<close>

text \<open>The packed year table of the lunar module, one entry per year from 1900 to 2100.\<close>

definition LUNAR_INFO :: "int list" where
  "LUNAR_INFO = [
    0x04bd8, 0x04ae0, 0x0a570, 0x054d5, 0x0d260, 0x0d950, 0x16554, 0x056a0, 0x09ad0, 0x055d2,
    0x04ae0, 0x0a5b6, 0x0a4d0, 0x0d250, 0x1d255, 0x0b540, 0x0d6a0, 0x0ada2, 0x095b0, 0x14977,
    0x04970, 0x0a4b0, 0x0b4b5, 0x06a50, 0x06d40, 0x1ab54, 0x02b60, 0x09570, 0x052f2, 0x04970,
    0x06566, 0x0d4a0, 0x0ea50, 0x06e95, 0x05ad0, 0x02b60, 0x186e3, 0x092e0, 0x1c8d7, 0x0c950,
    0x0d4a0, 0x1d8a6, 0x0b550, 0x056a0, 0x1a5b4, 0x025d0, 0x092d0, 0x0d2b2, 0x0a950, 0x0b557,
    0x06ca0, 0x0b550, 0x15355, 0x04da0, 0x0a5b0, 0x14573, 0x052b0, 0x0a9a8, 0x0e950, 0x06aa0,
    0x0aea6, 0x0ab50, 0x04b60, 0x0aae4, 0x0a570, 0x05260, 0x0f263, 0x0d950, 0x05b57, 0x056a0,
    0x096d0, 0x04dd5, 0x04ad0, 0x0a4d0, 0x0d4d4, 0x0d250, 0x0d558, 0x0b540, 0x0b6a0, 0x195a6,
    0x095b0, 0x049b0, 0x0a974, 0x0a4b0, 0x0b27a, 0x06a50, 0x06d40, 0x0af46, 0x0ab60, 0x09570,
    0x04af5, 0x04970, 0x064b0, 0x074a3, 0x0ea50, 0x06b58, 0x05ac0, 0x0ab60, 0x096d5, 0x092e0,
    0x0c960, 0x0d954, 0x0d4a0, 0x0da50, 0x07552, 0x056a0, 0x0abb7, 0x025d0, 0x092d0, 0x0cab5,
    0x0a950, 0x0b4a0, 0x0baa4, 0x0ad50, 0x055d9, 0x04ba0, 0x0a5b0, 0x15176, 0x052b0, 0x0a930,
    0x07954, 0x06aa0, 0x0ad50, 0x05b52, 0x04b60, 0x0a6e6, 0x0a4e0, 0x0d260, 0x0ea65, 0x0d530,
    0x05aa0, 0x076a3, 0x096d0, 0x04afb, 0x04ad0, 0x0a4d0, 0x1d0b6, 0x0d250, 0x0d520, 0x0dd45,
    0x0b5a0, 0x056d0, 0x055b2, 0x049b0, 0x0a577, 0x0a4b0, 0x0aa50, 0x1b255, 0x06d20, 0x0ada0,
    0x14b63, 0x09370, 0x049f8, 0x04970, 0x064b0, 0x168a6, 0x0ea50, 0x06b20, 0x1a6c4, 0x0aae0,
    0x0a2e0, 0x0d2e3, 0x0c960, 0x0d557, 0x0d4a0, 0x0da50, 0x05d55, 0x056a0, 0x0a6d0, 0x055d4,
    0x052d0, 0x0a9b8, 0x0a950, 0x0b4a0, 0x0b6a6, 0x0ad50, 0x055a0, 0x0aba4, 0x0a5b0, 0x052b0,
    0x0b273, 0x06930, 0x07337, 0x06aa0, 0x0ad50, 0x14b55, 0x04b60, 0x0a570, 0x054e4, 0x0d160,
    0x0e968, 0x0d520, 0x0daa0, 0x16aa6, 0x056d0, 0x04ae0, 0x0a9d4, 0x0a2d0, 0x0d150, 0x0f252,
    0x0d520]"

definition LUNAR_BASE_YEAR :: int where
  "LUNAR_BASE_YEAR = 1900"

definition LUNAR_BASE_DATE :: num where
  "LUNAR_BASE_DATE = newDate 1900 0 31"

text \<open>\<open>LUNAR_INFO[year - LUNAR_BASE_YEAR]\<close>: reading outside the array gives
  \<open>undefined\<close>, here \<open>None\<close>.\<close>

definition getLunarYearInfo :: "int \<Rightarrow> int option" where
  "getLunarYearInfo year =
     (let k = year - LUNAR_BASE_YEAR
      in if 0 \<le> k \<and> k < int (length LUNAR_INFO) then Some (LUNAR_INFO ! nat k) else None)"

text \<open>The bitwise operators convert an operand with \<open>ToInt32\<close>: \<open>undefined\<close> becomes 0,
  and a table entry, which lies below \<open>2 ^ 17\<close>, is unchanged.\<close>

definition ToInt32 :: "int option \<Rightarrow> int" where
  "ToInt32 v = (case v of None \<Rightarrow> 0 | Some x \<Rightarrow> x)"

definition getLeapMonth :: "int \<Rightarrow> int" where
  "getLeapMonth year =
     (let info = getLunarYearInfo year
      in drop_bit 13 (ToInt32 info) AND 0x0F)"

definition getLeapMonthDays :: "int \<Rightarrow> int" where
  "getLeapMonthDays year =
     (if getLeapMonth year = 0 then 0
      else let info = getLunarYearInfo year
           in if ToInt32 info AND 0x10000 \<noteq> 0 then 30 else 29)"

text \<open>\<open>1 << (month - 1)\<close> takes the shift count modulo 32.\<close>

definition getMonthDays :: "int \<Rightarrow> int \<Rightarrow> int" where
  "getMonthDays year month =
     (let info = getLunarYearInfo year
      in if ToInt32 info AND push_bit (nat ((month - 1) mod 32)) 1 \<noteq> 0 then 30 else 29)"

definition getYearDays :: "int \<Rightarrow> int" where
  "getYearDays year =
     (let days = foldl (\<lambda>days i. days + getMonthDays year i) 0 [1..12]
      in days + getLeapMonthDays year)"

definition getDaysBetween :: "num \<Rightarrow> num \<Rightarrow> num" where
  "getDaysBetween date1 date2 =
     (let diff = num_sub (getTime date1) (getTime date2)
      in map_option (\<lambda>v. v div (24 * 60 * 60 * 1000)) diff)"

section \<open>Lunar date resolver\<close>

text \<open>The \<open>while\<close> loop over lunar years: the state is \<open>lunarYear\<close> and \<open>offset\<close>.\<close>

function year_walk :: "int \<Rightarrow> num \<Rightarrow> int \<times> num" where
  "year_walk lunarYear offset =
     (if lunarYear < 2101 \<and> num_lt (Some 0) offset then
        (let yearDays = getYearDays lunarYear
         in if num_lt offset (Some yearDays) then (lunarYear, offset)
            else year_walk (lunarYear + 1) (num_sub offset (Some yearDays)))
      else (lunarYear, offset))"
  by pat_completeness auto
termination
  by (relation "measure (\<lambda>(lunarYear, offset). nat (2101 - lunarYear))") auto

declare year_walk.simps [simp del]

text \<open>The \<open>for\<close> loop over months, with its counter \<open>i\<close> stepped back once for the leap
  month. The result is \<open>lunarMonth\<close> (still 1, its initial value, when the loop ends
  without \<open>break\<close>), the remaining \<open>offset\<close> and \<open>isLeapMonth\<close>.\<close>

function month_walk :: "int \<Rightarrow> int \<Rightarrow> int \<Rightarrow> num \<Rightarrow> bool \<Rightarrow> int \<times> num \<times> bool" where
  "month_walk lunarYear leapMonth i offset isLeap =
     (if i \<le> 12 then
        (let (i1, isLeap1, monthDays) =
               (if leapMonth > 0 \<and> i = leapMonth + 1 \<and> \<not> isLeap
                then (i - 1, True, getLeapMonthDays lunarYear)
                else (i, isLeap, getMonthDays lunarYear i))
         in if num_lt offset (Some monthDays) then (i1, offset, isLeap1)
            else
              (let offset1 = num_sub offset (Some monthDays);
                   isLeap2 = (if isLeap1 \<and> i1 = leapMonth + 1 then False else isLeap1)
               in month_walk lunarYear leapMonth (i1 + 1) offset1 isLeap2))
      else (1, offset, isLeap))"
  by pat_completeness auto
termination
  by (relation "measure (\<lambda>(lunarYear, leapMonth, i, offset, isLeap).
        nat (2 * (13 - i)) + (if isLeap then 0 else 1))")
     (auto split: if_splits)

declare month_walk.simps [simp del]

text \<open>The four computed fields of the object that \<open>getLunar\<close> returns. Its three text
  fields are looked up from these in fixed name tables and are not modelled.\<close>

record LunarDate =
  lunarYear :: int
  lunarMonth :: int
  lunarDay :: num
  isLeapMonth :: bool

datatype exn =
  YearError \<comment> \<open>the \<open>Error\<close> thrown by the year check of \<open>getLunar\<close>\<close>
  | TypeError \<comment> \<open>reading a property of \<open>undefined\<close>\<close>

definition getLunar :: "int \<Rightarrow> int \<Rightarrow> int \<Rightarrow> exn + LunarDate" where
  "getLunar year month day =
     (if year < 1900 \<or> year > 2100 then Inl YearError
      else
        (let inputDate = newDate year (month - 1) day;
             offset = getDaysBetween inputDate LUNAR_BASE_DATE;
             (lunarYear, offset1) = year_walk LUNAR_BASE_YEAR offset;
             leapMonth = getLeapMonth lunarYear;
             (lunarMonth, offset2, isLeap) = month_walk lunarYear leapMonth 1 offset1 False
         in Inr \<lparr>lunarYear = lunarYear, lunarMonth = lunarMonth,
                 lunarDay = num_add offset2 (Some 1), isLeapMonth = isLeap\<rparr>))"

section \<open>Calendar grid\<close>

definition getDaysInMonth :: "int \<Rightarrow> int \<Rightarrow> num" where
  "getDaysInMonth year month = getDate (newDate year month 0)"

definition getFirstDayOfWeek :: "int \<Rightarrow> int \<Rightarrow> num" where
  "getFirstDayOfWeek year month = getDay (newDate year (month - 1) 1)"

text \<open>A cell of the grid: the object with the fields \<open>year\<close>, \<open>month\<close>, \<open>day\<close> and
  \<open>isCurrentMonth\<close>.\<close>

record Cell =
  cell_year :: int
  cell_month :: int
  cell_day :: num
  isCurrentMonth :: bool

text \<open>The loop \<open>for (i = 0; i < 42; i++)\<close>, with the counters \<open>day\<close> and
  \<open>nextMonthDay\<close> and the array \<open>grid\<close>, to which each turn pushes one cell.\<close>

function build_loop ::
  "int \<Rightarrow> int \<Rightarrow> num \<Rightarrow> num \<Rightarrow> num \<Rightarrow> int \<Rightarrow> int \<Rightarrow> int \<Rightarrow> Cell list \<Rightarrow> Cell list" where
  "build_loop year month firstDay daysInMonth daysInPrevMonth i day nextMonthDay grid =
     (if i < 42 then
        (if num_lt (Some i) firstDay then
           build_loop year month firstDay daysInMonth daysInPrevMonth (i + 1) day nextMonthDay
             (grid @ [\<lparr>cell_year = (if month = 1 then year - 1 else year),
                       cell_month = (if month = 1 then 12 else month - 1),
                       cell_day = num_add (num_add (num_sub daysInPrevMonth firstDay) (Some i))
                                    (Some 1),
                       isCurrentMonth = False\<rparr>])
         else if num_le (Some day) daysInMonth then
           build_loop year month firstDay daysInMonth daysInPrevMonth (i + 1) (day + 1)
             nextMonthDay
             (grid @ [\<lparr>cell_year = year, cell_month = month, cell_day = Some day,
                       isCurrentMonth = True\<rparr>])
         else
           build_loop year month firstDay daysInMonth daysInPrevMonth (i + 1) day
             (nextMonthDay + 1)
             (grid @ [\<lparr>cell_year = (if month = 12 then year + 1 else year),
                       cell_month = (if month = 12 then 1 else month + 1),
                       cell_day = Some nextMonthDay,
                       isCurrentMonth = False\<rparr>]))
      else grid)"
  by pat_completeness auto
termination
  by (relation "measure (\<lambda>(year, month, firstDay, daysInMonth, daysInPrevMonth, i, day,
        nextMonthDay, grid). nat (42 - i))") auto

declare build_loop.simps [simp del]

definition buildCalendarGrid :: "int \<Rightarrow> int \<Rightarrow> Cell list" where
  "buildCalendarGrid year month =
     (let firstDay = getFirstDayOfWeek year month;
          daysInMonth = getDaysInMonth year month;
          daysInPrevMonth = getDaysInMonth year (month - 1)
      in build_loop year month firstDay daysInMonth daysInPrevMonth 0 1 1 [])"

text \<open>The Gregorian calendar, against which the grid and the week number are stated: the
  length of a month, the dates that exist, and the day after a date.\<close>

definition days_in_month :: "int \<Rightarrow> int \<Rightarrow> int" where
  "days_in_month y m =
     (if m = 2 then (if InLeapYear y then 29 else 28)
      else if m = 4 \<or> m = 6 \<or> m = 9 \<or> m = 11 then 30 else 31)"

definition valid_date :: "int \<Rightarrow> int \<Rightarrow> int \<Rightarrow> bool" where
  "valid_date y m d = (1 \<le> m \<and> m \<le> 12 \<and> 1 \<le> d \<and> d \<le> days_in_month y m)"

definition next_day :: "int \<times> int \<times> int \<Rightarrow> int \<times> int \<times> int" where
  "next_day ymd =
     (case ymd of (y, m, d) \<Rightarrow>
        if d < days_in_month y m then (y, m, d + 1)
        else if m < 12 then (y, m + 1, 1)
        else (y + 1, 1, 1))"

text \<open>The calendar date that a cell carries, when its day is a number.\<close>

definition cell_date :: "Cell \<Rightarrow> (int \<times> int \<times> int) option" where
  "cell_date c = map_option (\<lambda>d. (cell_year c, cell_month c, d)) (cell_day c)"

section \<open>Solar term calculator\<close>

text \<open>
  The solar-term formula is computed in binary64 floating point. A finite double is
  \<open>Double m e\<close>, the number \<open>m * 2 ^ e\<close> with \<open>\<bar>m\<bar> \<le> 2 ^ 53\<close>. Every operation gives the
  exact result rounded to 53 significant bits, to nearest with ties to even
  (IEEE 754). Exponent limits, infinities and \<open>NaN\<close> are left out: the magnitudes that
  occur here lie between \<open>2 ^ - 60\<close> and \<open>2 ^ 6\<close>.
\<close>

datatype double = Double int int

text \<open>The rational number that a double denotes.\<close>

definition dval :: "double \<Rightarrow> rat" where
  "dval x = (case x of Double m e \<Rightarrow> of_int m * 2 powi e)"

definition round_to_53 :: "int \<Rightarrow> int \<Rightarrow> double" where
  "round_to_53 m e =
     (let a = \<bar>m\<bar>; k = bitlen a - 53 in
      if k \<le> 0 then Double m e
      else
        (let hi = a div 2 ^ nat k; low = a mod 2 ^ nat k; half = 2 ^ nat (k - 1);
             r = (if low > half \<or> (low = half \<and> odd hi) then hi + 1 else hi)
         in Double (sgn m * r) (e + k)))"

definition dbl_mul :: "double \<Rightarrow> double \<Rightarrow> double" where
  "dbl_mul x y = (case (x, y) of (Double m1 e1, Double m2 e2) \<Rightarrow> round_to_53 (m1 * m2) (e1 + e2))"

definition dbl_add :: "double \<Rightarrow> double \<Rightarrow> double" where
  "dbl_add x y =
     (case (x, y) of (Double m1 e1, Double m2 e2) \<Rightarrow>
        (let e = min e1 e2
         in round_to_53 (m1 * 2 ^ nat (e1 - e) + m2 * 2 ^ nat (e2 - e)) e))"

definition dbl_of_int :: "int \<Rightarrow> double" where
  "dbl_of_int n = round_to_53 n 0"

definition dbl_floor :: "double \<Rightarrow> int" where
  "dbl_floor x = (case x of Double m e \<Rightarrow> if e \<ge> 0 then m * 2 ^ nat e else m div 2 ^ nat (- e))"

text \<open>A decimal literal of the source text: \<open>(n, k)\<close> is \<open>n / 10 ^ k\<close>, so that \<open>6.11\<close> is
  \<open>(611, 2)\<close>. The engine reads a literal as the double nearest to it.\<close>

type_synonym decimal = "int \<times> nat"

definition rat_of_decimal :: "decimal \<Rightarrow> rat" where
  "rat_of_decimal d = (case d of (n, k) \<Rightarrow> of_int n / 10 ^ k)"

text \<open>The double nearest to \<open>p / q\<close>, for \<open>0 \<le> p\<close> and \<open>0 < q\<close>: the scaled quotient \<open>n\<close> has
  55 or 56 bits, of which 53 are kept; the bits dropped and the remainder of the
  division decide the rounding. (\<open>literal_near\<close> below checks the result for every
  literal of the table.)\<close>

definition dbl_of_ratio :: "int \<Rightarrow> int \<Rightarrow> double" where
  "dbl_of_ratio p q =
     (if p = 0 then Double 0 0
      else
        (let s = 55 - (bitlen p - bitlen q);
             num = (if s \<ge> 0 then p * 2 ^ nat s else p);
             den = (if s \<ge> 0 then q else q * 2 ^ nat (- s));
             n = num div den; rem = num mod den;
             k = (if n < 2 ^ 55 then 2 else 3);
             hi = n div 2 ^ nat k; low = n mod 2 ^ nat k; half = 2 ^ nat (k - 1);
             r = (if low > half \<or> (low = half \<and> (rem > 0 \<or> odd hi)) then hi + 1 else hi)
         in Double r (k - s)))"

definition dbl_of_decimal :: "decimal \<Rightarrow> double" where
  "dbl_of_decimal d = (case d of (n, k) \<Rightarrow> dbl_of_ratio n (10 ^ k))"

text \<open>The names of the 24 terms, transliterated.\<close>

definition JIEQI_NAMES :: "string list" where
  "JIEQI_NAMES = [
    ''xiaohan'', ''dahan'', ''lichun'', ''yushui'', ''jingzhe'', ''chunfen'',
    ''qingming'', ''guyu'', ''lixia'', ''xiaoman'', ''mangzhong'', ''xiazhi'',
    ''xiaoshu'', ''dashu'', ''liqiu'', ''chushu'', ''bailu'', ''qiufen'',
    ''hanlu'', ''shuangjiang'', ''lidong'', ''xiaoxue'', ''daxue'', ''dongzhi'']"

text \<open>The coefficient table: for each term the 20th-century and the 21st-century
  value of \<open>C\<close>.\<close>

definition JIEQI_DATA :: "(decimal \<times> decimal) list" where
  "JIEQI_DATA = [
    ((611, 2), (54055, 4)),
    ((2084, 2), (2012, 2)),
    ((46295, 4), (387, 2)),
    ((194599, 4), (1873, 2)),
    ((63826, 4), (563, 2)),
    ((214155, 4), (20646, 3)),
    ((559, 2), (481, 2)),
    ((20888, 3), (201, 1)),
    ((6318, 3), (552, 2)),
    ((2186, 2), (2104, 2)),
    ((65, 1), (5678, 3)),
    ((222, 1), (2137, 2)),
    ((7928, 3), (7108, 3)),
    ((2365, 2), (2283, 2)),
    ((835, 2), (75, 1)),
    ((2395, 2), (2313, 2)),
    ((844, 2), (7646, 3)),
    ((23822, 3), (23042, 3)),
    ((9098, 3), (8318, 3)),
    ((24218, 3), (23438, 3)),
    ((8218, 3), (7438, 3)),
    ((2308, 2), (2236, 2)),
    ((79, 1), (718, 2)),
    ((226, 1), (2194, 2))]"

text \<open>The correction table: term index, then year, then the correction in days.\<close>

definition JIEQI_EXCEPTIONS :: "(int \<times> (int \<times> int) list) list" where
  "JIEQI_EXCEPTIONS = [
    (0, [(1982, 1), (2019, - 1)]),
    (1, [(2000, 1), (2082, 1)]),
    (3, [(2026, - 1)]),
    (5, [(2084, 1)]),
    (9, [(2008, 1)]),
    (11, [(1928, 1)]),
    (12, [(1925, 1), (2016, 1)]),
    (13, [(1922, 1)]),
    (14, [(2002, 1)]),
    (16, [(1927, 1)]),
    (17, [(1942, 1)]),
    (19, [(2089, 1)]),
    (20, [(2089, 1)]),
    (21, [(1978, 1)]),
    (22, [(1954, 1)]),
    (23, [(1918, - 1), (2021, - 1)])]"

text \<open>The remainder operator \<open>%\<close> on integers: the sign of the result is the sign of the
  dividend.\<close>

definition js_rem :: "int \<Rightarrow> int \<Rightarrow> int" where
  "js_rem a b = sgn a * (\<bar>a\<bar> mod \<bar>b\<bar>)"

text \<open>In \<open>getJieqiDate\<close>, \<open>JIEQI_DATA[index]\<close> is \<open>undefined\<close> outside the table, and
  reading \<open>data[1]\<close> or \<open>data[0]\<close> then throws a \<open>TypeError\<close>. \<open>Y\<close> and \<open>L\<close> are integers
  (a division by 4 is exact in binary64); \<open>Y * 0.2422 + C\<close> is a product and a sum of
  doubles. A correction is added when the table has a non-zero entry.\<close>

definition getJieqiDate :: "int \<Rightarrow> int \<Rightarrow> exn + int" where
  "getJieqiDate year index =
     (let data = (if 0 \<le> index \<and> index < int (length JIEQI_DATA)
                  then Some (JIEQI_DATA ! nat index) else None);
          use21st = (year > 2000 \<or> (year = 2000 \<and> index > 3))
      in case data of
           None \<Rightarrow> Inl TypeError
         | Some d \<Rightarrow>
             (let C = dbl_of_decimal (if use21st then snd d else fst d);
                  Y = js_rem year 100;
                  L = (if index \<le> 3 then (Y - 1) div 4 else Y div 4);
                  jd = dbl_floor (dbl_add (dbl_mul (dbl_of_int Y) (dbl_of_decimal (2422, 4))) C)
                         - L
              in case map_of JIEQI_EXCEPTIONS index of
                   None \<Rightarrow> Inr jd
                 | Some row \<Rightarrow>
                     (case map_of row year of
                        None \<Rightarrow> Inr jd
                      | Some v \<Rightarrow> if v \<noteq> 0 then Inr (jd + v) else Inr jd)))"

text \<open>\<open>getJieqi\<close> returns the name of the term, or \<open>null\<close>, here \<open>None\<close>.\<close>

definition getJieqi :: "int \<Rightarrow> int \<Rightarrow> int \<Rightarrow> exn + string option" where
  "getJieqi year month day =
     (if year < 1900 \<or> year > 2100 then Inr None
      else
        (let index1 = (month - 1) * 2; index2 = (month - 1) * 2 + 1
         in case getJieqiDate year index1 of
              Inl e \<Rightarrow> Inl e
            | Inr jieqi1Date \<Rightarrow>
                (case getJieqiDate year index2 of
                   Inl e \<Rightarrow> Inl e
                 | Inr jieqi2Date \<Rightarrow>
                     if day = jieqi1Date then Inr (Some (JIEQI_NAMES ! nat index1))
                     else if day = jieqi2Date then Inr (Some (JIEQI_NAMES ! nat index2))
                     else Inr None)))"

text \<open>The day of a term as the specification words it, in exact arithmetic:
  \<open>floor (Y * 0.2422 + C) - L\<close> plus the correction of the table, if there is one.\<close>

definition termDate_spec :: "int \<Rightarrow> int \<Rightarrow> int" where
  "termDate_spec year termIndex =
     (let Y = year mod 100;
          row = JIEQI_DATA ! nat termIndex;
          C = (if year > 2000 \<or> (year = 2000 \<and> termIndex > 3)
               then rat_of_decimal (snd row) else rat_of_decimal (fst row));
          L = (if termIndex \<le> 3 then \<lfloor>(of_int Y - 1) / (4 :: rat)\<rfloor> else \<lfloor>of_int Y / (4 :: rat)\<rfloor>);
          correction = (case map_of JIEQI_EXCEPTIONS termIndex of
                          None \<Rightarrow> 0
                        | Some row \<Rightarrow> (case map_of row year of None \<Rightarrow> 0 | Some v \<Rightarrow> v))
      in \<lfloor>of_int Y * rat_of_decimal (2422, 4) + C\<rfloor> - L + correction)"

text \<open>Three checks on a literal of the table, all in integer arithmetic.
  \<open>literal_near\<close>: the double of the literal has a 53-bit significand and an exponent of
  at most \<open>- 48\<close>, and lies within half a unit in the last place of the literal.
  \<open>frac_free\<close>: no \<open>Y\<close> from 0 to 99 makes \<open>Y * 0.2422\<close> plus the literal an integer
  (2422 is twice 1211, and 1891 is the inverse of 1211 modulo 5000).
  \<open>coefficient_ok\<close>: both, for a literal of at most four decimals that is at most 25.\<close>

definition literal_near :: "decimal \<Rightarrow> bool" where
  "literal_near c =
     (case c of (n, k) \<Rightarrow>
        (case dbl_of_decimal c of Double m e \<Rightarrow>
           e \<le> - 48 \<and> 2 ^ 52 \<le> m \<and> m < 2 ^ 53 \<and>
           \<bar>2 * m * 10 ^ k - n * 2 ^ nat (1 - e)\<bar> \<le> 10 ^ k))"

definition frac_free :: "decimal \<Rightarrow> bool" where
  "frac_free c =
     (case c of (n, k) \<Rightarrow>
        (let N = n * 10 ^ (4 - k)
         in odd N \<or> 99 < (- (N div 2) * 1891) mod 5000))"

definition coefficient_ok :: "decimal \<Rightarrow> bool" where
  "coefficient_ok c =
     (literal_near c \<and> snd c \<le> 4 \<and> 0 \<le> fst c \<and> fst c \<le> 25 * 10 ^ snd c \<and> frac_free c)"

section \<open>Week number\<close>

text \<open>
  \<open>getWeekNumber\<close> subtracts the time values of two local midnights and divides by the
  length of a day, so its result depends on the time zone of the host: where the offset
  from UTC changes in the course of a year, the difference is not a whole number of days.
  A zone is the function \<open>LocalTZA (t, isUTC)\<close> of ECMAScript: the offset of local time
  from UTC in milliseconds, at the UTC time \<open>t\<close> when \<open>isUTC\<close> holds and at the local
  time \<open>t\<close> otherwise. \<open>LocalTime\<close> and \<open>UTC\<close> are the abstract operations of these names,
  \<open>newDateIn z\<close> is the constructor \<open>new Date(year, monthIndex, day)\<close> on a host of zone
  \<open>z\<close>, and \<open>getDayIn z\<close> the method \<open>getDay\<close> there.
\<close>

type_synonym zone = "int \<Rightarrow> bool \<Rightarrow> int"

definition LocalTime :: "zone \<Rightarrow> int \<Rightarrow> int" where
  "LocalTime z t = t + z t True"

definition UTC :: "zone \<Rightarrow> int \<Rightarrow> int" where
  "UTC z t = t - z t False"

definition newDateIn :: "zone \<Rightarrow> int \<Rightarrow> int \<Rightarrow> int \<Rightarrow> num" where
  "newDateIn z year monthIndex day =
     TimeClip (UTC z (MakeDay (MakeFullYear year) monthIndex day * msPerDay))"

definition getDayIn :: "zone \<Rightarrow> num \<Rightarrow> num" where
  "getDayIn z t = map_option (\<lambda>v. WeekDay (Day (LocalTime z v))) t"

text \<open>Negation, subtraction and division of doubles, and \<open>Math.ceil\<close>. The quotient is
  computed to 55 bits or more; a further bit, the last, records whether the division
  left a remainder, and \<open>round_to_53\<close> then gives the double nearest to the exact
  quotient. The divisor is not zero.\<close>

definition dbl_neg :: "double \<Rightarrow> double" where
  "dbl_neg x = (case x of Double m e \<Rightarrow> Double (- m) e)"

definition dbl_sub :: "double \<Rightarrow> double \<Rightarrow> double" where
  "dbl_sub x y = dbl_add x (dbl_neg y)"

definition dbl_div :: "double \<Rightarrow> double \<Rightarrow> double" where
  "dbl_div x y =
     (case (x, y) of (Double m1 e1, Double m2 e2) \<Rightarrow>
        (let p = \<bar>m1\<bar>; q = \<bar>m2\<bar>;
             s = max 0 (55 - (bitlen p - bitlen q));
             n = (p * 2 ^ nat s) div q;
             rem = (p * 2 ^ nat s) mod q;
             sticky = (if rem = 0 then 0 else 1)
         in round_to_53 (sgn m1 * sgn m2 * (2 * n + sticky)) (e1 - e2 - s - 1)))"

definition dbl_ceil :: "double \<Rightarrow> int" where
  "dbl_ceil x = - dbl_floor (dbl_neg x)"

text \<open>\<open>getWeekNumber\<close>: the two dates are time values or \<open>NaN\<close>, and with a \<open>NaN\<close> the
  result is \<open>NaN\<close>. Otherwise the difference, the two quotients and the two sums are
  operations on doubles, and \<open>Math.floor\<close> and \<open>Math.ceil\<close> give integers. A number that
  occurs is zero or lies between \<open>2 ^ - 27\<close> and \<open>2 ^ 55\<close> in magnitude, far from the
  exponent limits.\<close>

definition getWeekNumber :: "zone \<Rightarrow> int \<Rightarrow> int \<Rightarrow> int \<Rightarrow> num" where
  "getWeekNumber z year month day =
     (let date = newDateIn z year (month - 1) day;
          firstDayOfYear = newDateIn z year 0 1
      in case (date, firstDayOfYear, getDayIn z firstDayOfYear) of
           (Some a, Some b, Some w) \<Rightarrow>
             (let dayOfYear =
                    dbl_add
                      (dbl_of_int (dbl_floor
                         (dbl_div (dbl_sub (dbl_of_int a) (dbl_of_int b)) (dbl_of_int 86400000))))
                      (dbl_of_int 1);
                  firstDayOffset = dbl_of_int w
              in Some (dbl_ceil (dbl_div (dbl_add dayOfYear firstDayOffset) (dbl_of_int 7))))
         | _ \<Rightarrow> None)"

text \<open>What the week number needs of a zone: an offset is at most a day, and two local
  times that are a day or more apart denote instants in the same order.\<close>

definition zone_ok :: "zone \<Rightarrow> bool" where
  "zone_ok z =
     ((\<forall>t. \<bar>z t False\<bar> \<le> msPerDay) \<and> (\<forall>a b. a + msPerDay \<le> b \<longrightarrow> UTC z a \<le> UTC z b))"

text \<open>Two zones: UTC, and New York in 2024, five hours behind UTC in standard time and
  four hours behind in daylight time, which lasts from 10 March, 07:00 UTC, to
  3 November, 06:00 UTC. A local time that the change of March skips is read with the
  standard offset, and one that the change of November repeats with the daylight offset.\<close>

definition utc_zone :: zone where
  "utc_zone = (\<lambda>t isUTC. 0)"

definition new_york_2024 :: zone where
  "new_york_2024 =
     (\<lambda>t isUTC.
        if isUTC then (if 1710054000000 \<le> t \<and> t < 1730613600000 then - 14400000 else - 18000000)
        else (if 1710039600000 \<le> t \<and> t < 1730599200000 then - 14400000 else - 18000000))"

text \<open>The cell that the loop pushes in turn \<open>i\<close>, in closed form, for a first weekday \<open>f\<close>, a month
  of \<open>n\<close> days and a previous month of \<open>p\<close> days (\<open>build_loop_closed\<close> below), and the
  lengths of the months before and after \<open>(year, month)\<close>.\<close>

definition grid_cell :: "int \<Rightarrow> int \<Rightarrow> int \<Rightarrow> int \<Rightarrow> int \<Rightarrow> int \<Rightarrow> Cell" where
  "grid_cell year month f n p i =
     (if i < f then
        \<lparr>cell_year = (if month = 1 then year - 1 else year),
         cell_month = (if month = 1 then 12 else month - 1),
         cell_day = Some (p - f + i + 1), isCurrentMonth = False\<rparr>
      else if i - f + 1 \<le> n then
        \<lparr>cell_year = year, cell_month = month, cell_day = Some (i - f + 1),
         isCurrentMonth = True\<rparr>
      else
        \<lparr>cell_year = (if month = 12 then year + 1 else year),
         cell_month = (if month = 12 then 1 else month + 1),
         cell_day = Some (i - f - n + 1), isCurrentMonth = False\<rparr>)"

definition prev_len :: "int \<Rightarrow> int \<Rightarrow> int" where
  "prev_len year month =
     days_in_month (if month = 1 then year - 1 else year) (if month = 1 then 12 else month - 1)"

definition next_len :: "int \<Rightarrow> int \<Rightarrow> int" where
  "next_len year month =
     days_in_month (if month = 12 then year + 1 else year) (if month = 12 then 1 else month + 1)"

section \<open>The decoded table\<close>

lemma getLeapMonth_bounds: "0 \<le> getLeapMonth year \<and> getLeapMonth year \<le> 15"
proof -
  have "0 \<le> drop_bit 13 (ToInt32 (getLunarYearInfo year)) AND (15 :: int)"
    by simp
  moreover have "drop_bit 13 (ToInt32 (getLunarYearInfo year)) AND (15 :: int) \<le> 15"
    by (rule AND_upper2) simp
  ultimately show ?thesis
    by (simp add: getLeapMonth_def)
qed

text \<open>What the decoder makes of the table: every year from 1900 to 2100 gets a leap
  month, and a total between 380 and 386 days.\<close>

lemma decoded_years:
  "list_all (\<lambda>year. getLeapMonth year \<noteq> 0 \<and> 380 \<le> getYearDays year \<and> getYearDays year \<le> 386)
     [1900..2100]"
  by code_simp

lemma decoded_year:
  assumes "1900 \<le> year" "year \<le> 2100"
  shows "getLeapMonth year \<noteq> 0 \<and> 380 \<le> getYearDays year \<and> getYearDays year \<le> 386"
proof -
  have "year \<in> set [1900..2100]" using assms by (simp only: set_upto atLeastAtMost_iff)
  moreover have "\<forall>y \<in> set [1900..2100].
      getLeapMonth y \<noteq> 0 \<and> 380 \<le> getYearDays y \<and> getYearDays y \<le> 386"
    using decoded_years by (simp only: list_all_iff)
  ultimately show ?thesis by (rule bspec [rotated])
qed

text \<open>
  Claim C5 says that the leap month decoded by \<open>getLeapMonth\<close> lies in \<open>[0, 12]\<close> for
  every year from 1900 to 2100. The four-bit field read by \<open>getLeapMonth\<close> shares its top
  bit with the leap-length flag \<open>0x10000\<close>, and for the year 1914, whose table entry is
  \<open>0x1d255\<close>, the decoded leap month is 14.
\<close>

theorem getLeapMonth_1914:
  "getLunarYearInfo 1914 = Some 0x1d255 \<and> getLeapMonth 1914 = 14"
  by code_simp

text \<open>
  Claim C6 says that the total of \<open>getYearDays\<close> lies in \<open>[353, 385]\<close> for every year from
  1900 to 2100. For the year 1919 (table entry \<open>0x14977\<close>) the decoder finds eight long
  months and a long leap month, 386 days in all.
\<close>

theorem getYearDays_1919:
  "getLeapMonth 1919 = 10 \<and> getLeapMonthDays 1919 = 30 \<and> getYearDays 1919 = 386"
  by code_simp

section \<open>The resolver at the epoch and before it\<close>

lemma getLunar_year_out_of_range:
  "year < 1900 \<or> year > 2100 \<Longrightarrow> getLunar year month day = Inl YearError"
  by (simp add: getLunar_def)

lemma getLunar_in_range_returns:
  "1900 \<le> year \<Longrightarrow> year \<le> 2100 \<Longrightarrow> \<exists>r. getLunar year month day = Inr r"
  by (simp add: getLunar_def Let_def split_beta)

lemma getLunar_epoch:
  "getLunar 1900 1 31 =
     Inr \<lparr>lunarYear = 1900, lunarMonth = 1, lunarDay = Some 1, isLeapMonth = False\<rparr>"
  by code_simp

text \<open>
  Claim C3 says that \<open>getLunar\<close> fails for every year outside \<open>[1900, 2100]\<close> and for
  every date before the epoch 1900-01-31. The year check is there
  (\<open>getLunar_year_out_of_range\<close>), but 1900-01-01, thirty days before the epoch, passes
  it: the offset is \<open>-30\<close> and the call returns a lunar date whose day is \<open>-29\<close>.
\<close>

theorem getLunar_before_epoch:
  "getDaysBetween (newDate 1900 (1 - 1) 1) LUNAR_BASE_DATE = Some (- 30) \<and>
   getLunar 1900 1 1 =
     Inr \<lparr>lunarYear = 1900, lunarMonth = 1, lunarDay = Some (- 29), isLeapMonth = False\<rparr>"
  by code_simp

section \<open>The resolver after a leap month\<close>

text \<open>
  Claim C1 says that the result of \<open>getLunar\<close> has a day within its month segment and
  has \<open>isLeapMonth\<close> set only when the leap month of its year is its month. The loop
  resets the flag only at the end of the month that follows the leap month, so every
  day of that month is returned with the flag set: 1900-04-28 is the first day of the
  third month of 1900, whose decoded leap month is 2, and comes back as a leap month.
\<close>

theorem getLunar_flag_after_leap_month:
  "getLeapMonth 1900 = 2 \<and>
   getLunar 1900 4 28 =
     Inr \<lparr>lunarYear = 1900, lunarMonth = 3, lunarDay = Some 1, isLeapMonth = True\<rparr>"
  by code_simp

text \<open>
  Claim C4 says that the first day of every month segment converts back to that
  segment: its year, its month, day 1 and the leap flag of the segment. In 1901 the
  decoded leap month is 2, so the ordinal third month starts after the year 1900, the
  first two months of 1901 and the leap month, 471 days after the epoch, which is
  1901-05-17. The segment is not the leap month, and \<open>getLunar\<close> returns it with
  \<open>isLeapMonth\<close> set.
\<close>

theorem getLunar_first_day_of_month_after_leap:
  "getLeapMonth 1901 = 2 \<and>
   getYearDays 1900 + getMonthDays 1901 1 + getMonthDays 1901 2 + getLeapMonthDays 1901 = 471 \<and>
   getDaysBetween (newDate 1901 (5 - 1) 17) LUNAR_BASE_DATE = Some 471 \<and>
   getLunar 1901 5 17 =
     Inr \<lparr>lunarYear = 1901, lunarMonth = 3, lunarDay = Some 1, isLeapMonth = True\<rparr>"
  by code_simp

section \<open>Rounding in binary64\<close>

lemma two_powi_pos: "0 < (2 :: rat) powi e"
  by (simp add: zero_less_power_int)

lemma two_powi_nat: "0 \<le> k \<Longrightarrow> (2 :: rat) powi k = of_int (2 ^ nat k)"
  by (simp add: power_int_def)

lemma round_step:
  fixes a :: int and k :: nat
  assumes "0 < k" "0 \<le> a"
  defines "hi \<equiv> a div 2 ^ k" and "low \<equiv> a mod 2 ^ k" and "half \<equiv> 2 ^ (k - 1)"
  defines "r \<equiv> (if low > half \<or> (low = half \<and> odd hi) then hi + 1 else hi)"
  shows "\<bar>r * 2 ^ k - a\<bar> \<le> 2 ^ (k - 1)"
proof -
  have a: "a = hi * 2 ^ k + low"
    unfolding hi_def low_def by (rule div_mult_mod_eq [symmetric])
  have low: "0 \<le> low" "low < 2 ^ k" by (simp_all add: low_def)
  have k2: "(2::int) ^ k = 2 * half"
    using assms(1) by (cases k) (simp_all add: half_def)
  show ?thesis
  proof (cases "low > half \<or> (low = half \<and> odd hi)")
    case True
    then have "r * 2 ^ k - a = 2 ^ k - low" by (simp add: r_def a algebra_simps)
    then show ?thesis using True low k2 by (auto simp: half_def)
  next
    case False
    then have "r * 2 ^ k - a = - low" by (simp add: r_def a)
    then show ?thesis using False low by (auto simp: half_def)
  qed
qed

lemma round_to_53_error:
  assumes "\<bar>of_int m * 2 powi e\<bar> < (2 :: rat) powi j"
  shows "\<bar>dval (round_to_53 m e) - of_int m * 2 powi e\<bar> \<le> 2 powi (j - 54)"
proof (cases "bitlen \<bar>m\<bar> - 53 \<le> 0")
  case True
  then show ?thesis
    using two_powi_pos [of "j - 54"] by (simp add: round_to_53_def dval_def less_imp_le)
next
  case False
  define a where "a = \<bar>m\<bar>"
  define k where "k = bitlen a - 53"
  define r where "r = (if a mod 2 ^ nat k > 2 ^ nat (k - 1) \<or>
      (a mod 2 ^ nat k = 2 ^ nat (k - 1) \<and> odd (a div 2 ^ nat k)) then a div 2 ^ nat k + 1
      else a div 2 ^ nat k)"
  have k: "0 < k" using False by (simp add: k_def a_def)
  have a0: "0 < a" using k bitlen_eq_zero_iff [of a] bitlen_nonneg [of a] by (auto simp: k_def)
  have res: "round_to_53 m e = Double (sgn m * r) (e + k)"
    using False by (simp add: round_to_53_def Let_def a_def k_def r_def)
  have nk: "nat (k - 1) = nat k - 1" using k by simp
  have step: "\<bar>r * 2 ^ nat k - a\<bar> \<le> 2 ^ nat (k - 1)"
    unfolding r_def nk using round_step [of "nat k" a] k a0 by simp
  have m: "m = sgn m * a" by (simp add: a_def sgn_mult_abs)
  have "dval (round_to_53 m e) - of_int m * 2 powi e
      = of_int (sgn m * r) * (2 powi k * 2 powi e) - of_int (sgn m * a) * 2 powi e"
    unfolding res using m by (simp add: dval_def power_int_add add.commute)
  also have "\<dots> = of_int (sgn m) * of_int (r * 2 ^ nat k - a) * 2 powi e"
    using k by (simp add: two_powi_nat algebra_simps)
  finally have eq: "dval (round_to_53 m e) - of_int m * 2 powi e
      = of_int (sgn m) * of_int (r * 2 ^ nat k - a) * 2 powi e" .
  have sg: "\<bar>of_int (sgn m) :: rat\<bar> = 1"
    using a0 by (cases "m < 0") (simp_all add: a_def)
  have "\<bar>dval (round_to_53 m e) - of_int m * 2 powi e\<bar>
      = \<bar>of_int (r * 2 ^ nat k - a) :: rat\<bar> * 2 powi e"
    unfolding eq abs_mult sg using two_powi_pos [of e] by simp
  also have "\<dots> = of_int \<bar>r * 2 ^ nat k - a\<bar> * 2 powi e"
    by (simp only: of_int_abs)
  also have "\<dots> \<le> of_int (2 ^ nat (k - 1)) * 2 powi e"
  proof (rule mult_right_mono)
    show "(of_int \<bar>r * 2 ^ nat k - a\<bar> :: rat) \<le> of_int (2 ^ nat (k - 1))"
      using step by (simp only: of_int_le_iff)
    show "0 \<le> (2 :: rat) powi e" using two_powi_pos [of e] by simp
  qed
  also have "\<dots> = 2 powi (k - 1 + e)"
    using k by (simp add: power_int_add two_powi_nat)
  finally have err: "\<bar>dval (round_to_53 m e) - of_int m * 2 powi e\<bar> \<le> 2 powi (k - 1 + e)" .
  have "2 ^ nat (bitlen a - 1) \<le> a" using bitlen_bounds [OF a0] by simp
  then have "(2 :: rat) powi (52 + k) \<le> of_int a"
    using k by (simp add: k_def two_powi_nat)
  then have "(2 :: rat) powi (52 + k) * 2 powi e \<le> of_int a * 2 powi e"
    using two_powi_pos [of e] by (intro mult_right_mono) (simp_all add: less_imp_le)
  also have "of_int a * 2 powi e = \<bar>of_int m * (2 :: rat) powi e\<bar>"
    using two_powi_pos [of e] by (simp add: abs_mult a_def)
  also note assms
  finally have "(2 :: rat) powi (52 + k + e) < 2 powi j"
    by (simp add: power_int_add)
  then have "52 + k + e < j"
  proof (rule contrapos_pp)
    assume "\<not> 52 + k + e < j"
    then have "(2 :: rat) powi j \<le> 2 powi (52 + k + e)"
      by (intro power_int_increasing) simp_all
    then show "\<not> (2 :: rat) powi (52 + k + e) < 2 powi j" by simp
  qed
  then have "k - 1 + e \<le> j - 54" by simp
  then have "(2 :: rat) powi (k - 1 + e) \<le> 2 powi (j - 54)"
    by (intro power_int_increasing) simp_all
  with err show ?thesis by linarith
qed

lemma dval_Double: "dval (Double m e) = of_int m * 2 powi e"
  by (simp add: dval_def)

lemma dbl_of_int_exact: "\<bar>n\<bar> < 2 ^ 53 \<Longrightarrow> dbl_of_int n = Double n 0"
  using bitlen_le_iff_power [of "\<bar>n\<bar>" 53] by (simp add: dbl_of_int_def round_to_53_def)

lemma dbl_mul_error:
  assumes "\<bar>dval x * dval y\<bar> < 2 powi j"
  shows "\<bar>dval (dbl_mul x y) - dval x * dval y\<bar> \<le> 2 powi (j - 54)"
proof -
  obtain m1 e1 m2 e2 where x: "x = Double m1 e1" and y: "y = Double m2 e2"
    by (cases x, cases y) blast
  have v: "dval x * dval y = of_int (m1 * m2) * 2 powi (e1 + e2)"
    by (simp add: x y dval_Double power_int_add)
  show ?thesis
    using round_to_53_error [of "m1 * m2" "e1 + e2" j] assms
    unfolding v by (simp add: dbl_mul_def x y)
qed

lemma dbl_add_error:
  assumes "\<bar>dval x + dval y\<bar> < 2 powi j"
  shows "\<bar>dval (dbl_add x y) - (dval x + dval y)\<bar> \<le> 2 powi (j - 54)"
proof -
  obtain m1 e1 m2 e2 where x: "x = Double m1 e1" and y: "y = Double m2 e2"
    by (cases x, cases y) blast
  define e where "e = min e1 e2"
  have s: "of_int m * (2 :: rat) powi e' = of_int (m * 2 ^ nat (e' - e)) * 2 powi e"
    if "e \<le> e'" for m e'
  proof -
    have "(2 :: rat) powi e' = 2 powi ((e' - e) + e)" by simp
    also have "\<dots> = 2 powi (e' - e) * 2 powi e"
      by (rule power_int_add) simp
    also have "(2 :: rat) powi (e' - e) = of_int (2 ^ nat (e' - e))"
      using that by (simp add: two_powi_nat)
    finally show ?thesis by (simp only: of_int_mult mult.assoc)
  qed
  have s1: "of_int m1 * (2 :: rat) powi e1 = of_int (m1 * 2 ^ nat (e1 - e)) * 2 powi e"
    by (rule s) (simp add: e_def)
  have s2: "of_int m2 * (2 :: rat) powi e2 = of_int (m2 * 2 ^ nat (e2 - e)) * 2 powi e"
    by (rule s) (simp add: e_def)
  have v: "dval x + dval y
      = of_int (m1 * 2 ^ nat (e1 - e) + m2 * 2 ^ nat (e2 - e)) * 2 powi e"
    unfolding x y dval_Double s1 s2 by (simp only: of_int_add distrib_right)
  have d: "dbl_add x y = round_to_53 (m1 * 2 ^ nat (e1 - e) + m2 * 2 ^ nat (e2 - e)) e"
    by (simp add: dbl_add_def x y Let_def e_def)
  show ?thesis
    unfolding v d by (rule round_to_53_error) (use assms in \<open>simp only: v\<close>)
qed

lemma dbl_floor_dval: "dbl_floor x = \<lfloor>dval x\<rfloor>"
proof -
  obtain m e where x: "x = Double m e" by (cases x) blast
  show ?thesis
  proof (cases "0 \<le> e")
    case True
    have "dval x = of_int (m * 2 ^ nat e)"
      using True by (simp add: x dval_Double two_powi_nat)
    then have "\<lfloor>dval x\<rfloor> = m * 2 ^ nat e"
      by (simp only: floor_of_int)
    then show ?thesis using True by (simp add: dbl_floor_def x)
  next
    case False
    have "(2 :: rat) powi e = inverse (2 powi (- e))"
      using power_int_minus [of "2 :: rat" "- e"] by simp
    also have "(2 :: rat) powi (- e) = 2 ^ nat (- e)"
      using False by (simp add: power_int_def)
    finally have p: "(2 :: rat) powi e = inverse (2 ^ nat (- e))" .
    have "dval x = of_int m / of_int (2 ^ nat (- e))"
      unfolding x dval_Double p by (simp only: divide_inverse of_int_power of_int_numeral)
    then have "\<lfloor>dval x\<rfloor> = m div 2 ^ nat (- e)"
      by (simp only: floor_divide_of_int_eq)
    then show ?thesis using False by (simp add: dbl_floor_def x)
  qed
qed

section \<open>Division in binary64\<close>

lemma round_to_53_exact:
  assumes "\<bar>m\<bar> = c * 2 ^ t" "c < 2 ^ 53"
  shows "dval (round_to_53 m e) = of_int m * 2 powi e"
proof (cases "bitlen \<bar>m\<bar> - 53 \<le> 0")
  case True
  then show ?thesis by (simp add: round_to_53_def dval_def)
next
  case False
  define a where "a = \<bar>m\<bar>"
  define k where "k = bitlen a - 53"
  have k: "0 < k" using False by (simp add: k_def a_def)
  have "a < 2 ^ 53 * 2 ^ t"
  proof -
    have "c * 2 ^ t < 2 ^ 53 * (2 ^ t :: int)"
      using assms(2) by (intro mult_strict_right_mono) simp_all
    then show ?thesis by (simp add: a_def assms(1))
  qed
  then have "a < 2 ^ nat (53 + int t)"
    by (simp add: nat_add_distrib power_add)
  then have "bitlen a \<le> 53 + int t"
    by (simp add: bitlen_le_iff_power)
  then have kt: "nat k \<le> t" by (simp add: k_def)
  have "(2 :: int) ^ t = 2 ^ (t - nat k) * 2 ^ nat k"
    using kt by (simp flip: power_add)
  then have a: "a = (c * 2 ^ (t - nat k)) * 2 ^ nat k"
    by (simp add: a_def assms(1))
  have low: "a mod 2 ^ nat k = 0" by (subst a) simp
  have hi: "a div 2 ^ nat k * 2 ^ nat k = a"
    using low by (simp add: mod_0_imp_dvd)
  have half: "(0 :: int) < 2 ^ nat (k - 1)" by simp
  have res: "round_to_53 m e = Double (sgn m * (a div 2 ^ nat k)) (e + k)"
    using False low half unfolding round_to_53_def Let_def a_def [symmetric] k_def [symmetric]
    by simp
  have m: "m = sgn m * a" by (simp add: a_def sgn_mult_abs)
  have "dval (round_to_53 m e) = of_int (sgn m * (a div 2 ^ nat k)) * (2 powi k * 2 powi e)"
    unfolding res by (simp add: dval_def power_int_add add.commute)
  also have "\<dots> = of_int (sgn m * (a div 2 ^ nat k * 2 ^ nat k)) * 2 powi e"
    using k by (simp add: two_powi_nat algebra_simps)
  also have "\<dots> = of_int m * 2 powi e"
    unfolding hi using m by simp
  finally show ?thesis .
qed

lemma dval_neg: "dval (dbl_neg x) = - dval x"
  by (cases x) (simp add: dbl_neg_def dval_def)

lemma dbl_ceil_dval: "dbl_ceil x = \<lceil>dval x\<rceil>"
  by (simp add: dbl_ceil_def dbl_floor_dval dval_neg ceiling_def)

text \<open>The quotient of the integers \<open>n\<close> and \<open>D\<close>, computed in binary64, is within
  \<open>2 ^ - 32\<close> of \<open>n / D\<close> when \<open>\<bar>n\<bar> \<le> 2 ^ 20 * D\<close>, and is \<open>n / D\<close> itself when \<open>D\<close>
  divides \<open>n\<close>. A quotient that is not an integer is at least \<open>1 / D\<close> away from one, so for
  \<open>D \<le> 2 ^ 27\<close> the floor and the ceiling of the computed quotient are those of \<open>n / D\<close>.\<close>

lemma bitlen_le_shift:
  assumes "0 < D" "p \<le> 2 ^ 20 * D"
  shows "bitlen p \<le> 20 + bitlen D"
proof -
  have b: "0 \<le> bitlen D" by (rule bitlen_nonneg)
  have "D < 2 ^ nat (bitlen D)" using bitlen_bounds [OF assms(1)] by simp
  then have "2 ^ 20 * D < 2 ^ 20 * (2 ^ nat (bitlen D) :: int)" by simp
  also have "\<dots> = 2 ^ nat (20 + bitlen D)"
    using b by (simp add: nat_add_distrib power_add)
  finally have "p < 2 ^ nat (20 + bitlen D)" using assms(2) by linarith
  then show ?thesis using b by (simp add: bitlen_le_iff_power)
qed

lemma dbl_div_int:
  assumes "0 < D" "\<bar>n\<bar> \<le> 2 ^ 20 * D"
  shows "\<bar>dval (dbl_div (Double n 0) (Double D 0)) - of_int n / of_int D\<bar> \<le> 1 / 2 ^ 32"
    and "D dvd n \<Longrightarrow> dval (dbl_div (Double n 0) (Double D 0)) = of_int (n div D)"
proof -
  define p where "p = \<bar>n\<bar>"
  define s where "s = max 0 (55 - (bitlen p - bitlen D))"
  define S :: int where "S = 2 ^ nat s"
  define N where "N = (p * S) div D"
  define R where "R = (p * S) mod D"
  define st :: int where "st = (if R = 0 then 0 else 1)"
  define M where "M = sgn n * (2 * N + st)"
  define x :: rat where "x = of_int n / of_int D"
  define y :: rat where "y = of_int M * 2 powi (- s - 1)"
  have res: "dbl_div (Double n 0) (Double D 0) = round_to_53 M (- s - 1)"
    using assms(1)
    by (simp add: dbl_div_def Let_def M_def st_def R_def N_def S_def s_def p_def)
  have s35: "35 \<le> s"
    using bitlen_le_shift [OF assms(1), of p] assms(2) by (simp add: s_def p_def)
  have S0: "0 < S" by (simp add: S_def)
  have S36: "2 ^ 35 \<le> S"
  proof -
    have "(2 :: int) ^ 35 \<le> 2 ^ nat s"
      using s35 by (intro power_increasing) simp_all
    then show ?thesis by (simp add: S_def)
  qed
  have pS: "p * S = N * D + R" by (simp add: N_def R_def)
  have R: "0 \<le> R" "R < D" using assms(1) by (simp_all add: R_def)
  have D0: "(0 :: rat) < of_int D" using assms(1) by simp
  have SR: "(0 :: rat) < of_int S" using S0 by simp
  have pw: "(2 :: rat) powi (- s - 1) = 1 / (2 * of_int S)"
  proof -
    have "(2 :: rat) powi (- s - 1) = inverse (2 powi (s + 1))"
      using power_int_minus [of "2 :: rat" "s + 1"] by simp
    also have "(2 :: rat) powi (s + 1) = of_int (2 ^ nat (s + 1))"
      using s35 by (intro two_powi_nat) simp
    also have "(2 :: int) ^ nat (s + 1) = 2 * S"
      using s35 by (simp add: S_def nat_add_distrib)
    finally show ?thesis by (simp add: inverse_eq_divide)
  qed
  define u :: rat where "u = of_int (2 * N + st) / (2 * of_int S)"
  define w :: rat where "w = of_int p / of_int D"
  have yu: "y = of_int (sgn n) * u" by (simp add: y_def M_def pw u_def)
  have xw: "x = of_int (sgn n) * w"
  proof -
    have "n = sgn n * p" by (simp add: p_def sgn_mult_abs)
    then have "of_int n = (of_int (sgn n) * of_int p :: rat)"
      by (metis of_int_mult)
    then show ?thesis by (simp add: x_def w_def)
  qed
  have sg: "\<bar>of_int (sgn n) :: rat\<bar> \<le> 1" by (simp add: sgn_if)
  have uw: "u - w = of_int (st * D - 2 * R) / (2 * of_int S * of_int D)"
  proof -
    have "(of_int p * of_int S :: rat) = of_int N * of_int D + of_int R"
      using pS by (metis of_int_add of_int_mult)
    then show ?thesis
      using D0 SR by (simp add: u_def w_def field_simps)
  qed
  have num: "\<bar>st * D - 2 * R\<bar> \<le> D"
    using R by (auto simp: st_def)
  have duw: "\<bar>u - w\<bar> \<le> 1 / (2 * of_int S)"
  proof -
    have "\<bar>u - w\<bar> = of_int \<bar>st * D - 2 * R\<bar> / (2 * of_int S * of_int D)"
      unfolding uw using D0 SR by (simp add: abs_divide)
    also have "\<dots> \<le> of_int D / (2 * of_int S * of_int D)"
    proof (rule divide_right_mono)
      show "(of_int \<bar>st * D - 2 * R\<bar> :: rat) \<le> of_int D"
        using num by (simp only: of_int_le_iff)
      show "(0 :: rat) \<le> 2 * of_int S * of_int D"
        using D0 SR by simp
    qed
    also have "\<dots> = 1 / (2 * of_int S)"
      using D0 by simp
    finally show ?thesis .
  qed
  have S2: "1 / (2 * of_int S) \<le> (1 :: rat) / 2 ^ 36"
  proof -
    have "(2 :: rat) ^ 35 \<le> of_int S"
      using S36 by (metis of_int_le_iff of_int_numeral of_int_power)
    then show ?thesis by (intro divide_left_mono) simp_all
  qed
  have dyx: "\<bar>y - x\<bar> \<le> 1 / 2 ^ 36"
  proof -
    have "y - x = of_int (sgn n) * (u - w)" by (simp add: yu xw algebra_simps)
    then have "\<bar>y - x\<bar> = \<bar>of_int (sgn n) :: rat\<bar> * \<bar>u - w\<bar>" by (simp add: abs_mult)
    also have "\<dots> \<le> 1 * \<bar>u - w\<bar>"
      using sg by (intro mult_right_mono) simp_all
    finally have a: "\<bar>y - x\<bar> \<le> \<bar>u - w\<bar>" by simp
    show ?thesis by (rule order_trans [OF a order_trans [OF duw S2]])
  qed
  have xb: "\<bar>x\<bar> \<le> 2 ^ 20"
  proof -
    have "\<bar>x\<bar> = of_int \<bar>n\<bar> / of_int D"
      using D0 by (simp add: x_def abs_divide)
    also have "\<dots> \<le> of_int (2 ^ 20 * D) / of_int D"
    proof (rule divide_right_mono)
      show "(of_int \<bar>n\<bar> :: rat) \<le> of_int (2 ^ 20 * D)"
        using assms(2) by (simp only: of_int_le_iff)
      show "(0 :: rat) \<le> of_int D" using D0 by simp
    qed
    also have "\<dots> = 2 ^ 20" using D0 by simp
    finally show ?thesis .
  qed
  have yb: "\<bar>of_int M * 2 powi (- s - 1)\<bar> < (2 :: rat) powi 21"
  proof -
    have "\<bar>y\<bar> \<le> \<bar>x\<bar> + \<bar>y - x\<bar>" by linarith
    also have "\<dots> \<le> 2 ^ 20 + 1 / 2 ^ 36" using xb dyx by linarith
    also have "\<dots> < 2 ^ 21" by simp
    finally show ?thesis by (simp add: y_def)
  qed
  have "\<bar>dval (round_to_53 M (- s - 1)) - y\<bar> \<le> 2 powi (21 - 54)"
    unfolding y_def by (rule round_to_53_error [OF yb])
  then have "\<bar>dval (round_to_53 M (- s - 1)) - y\<bar> \<le> 1 / 2 ^ 33"
    by (simp add: power_int_minus inverse_eq_divide)
  then have "\<bar>dval (round_to_53 M (- s - 1)) - x\<bar> \<le> 1 / 2 ^ 33 + 1 / 2 ^ 36"
    using dyx by linarith
  also have "\<dots> \<le> (1 :: rat) / 2 ^ 32" by simp
  finally show "\<bar>dval (dbl_div (Double n 0) (Double D 0)) - of_int n / of_int D\<bar> \<le> 1 / 2 ^ 32"
    unfolding res x_def .
  show "dval (dbl_div (Double n 0) (Double D 0)) = of_int (n div D)" if dv: "D dvd n"
  proof -
    have dp: "D dvd p" using dv by (simp add: p_def)
    then obtain c where c: "p = D * c" by (rule dvdE)
    have c0: "0 \<le> c"
    proof (rule ccontr)
      assume "\<not> 0 \<le> c"
      then have "D * c < 0" using assms(1) by (simp add: mult_less_0_iff)
      then show False using c by (simp add: p_def)
    qed
    have c20: "c \<le> 2 ^ 20"
    proof (rule ccontr)
      assume "\<not> c \<le> 2 ^ 20"
      then have "2 ^ 20 < c" by simp
      then have "D * 2 ^ 20 < D * c" using assms(1) by simp
      then show False using assms(2) c by (simp add: p_def mult.commute)
    qed
    have N: "N = c * S" using assms(1) by (simp add: N_def c mult.assoc)
    have R0: "R = 0" by (simp add: R_def c mult.assoc)
    have M: "M = sgn n * (c * (2 * S))" by (simp add: M_def st_def R0 N)
    have "\<bar>M\<bar> = c * 2 ^ (nat s + 1)"
    proof (cases "n = 0")
      case True
      then have "c = 0" using c assms(1) by (simp add: p_def)
      then show ?thesis by (simp add: M)
    next
      case False
      then have "\<bar>sgn n\<bar> = 1" by (simp add: sgn_if)
      then show ?thesis using c0 S0 by (simp add: M abs_mult S_def)
    qed
    moreover have "c < 2 ^ 53" using c20 by simp
    ultimately have "dval (round_to_53 M (- s - 1)) = of_int M * 2 powi (- s - 1)"
      by (rule round_to_53_exact)
    also have "\<dots> = y" by (simp add: y_def)
    also have "y = x"
    proof -
      have "u - w = 0" unfolding uw by (simp add: st_def R0)
      then show ?thesis by (simp add: yu xw)
    qed
    also have "x = of_int (n div D)"
    proof -
      obtain k where k: "n = D * k" using dv by (rule dvdE)
      then have "n div D = k" using assms(1) by simp
      moreover have "x = of_int k" using D0 by (simp add: x_def k)
      ultimately show ?thesis by simp
    qed
    finally show ?thesis unfolding res .
  qed
qed

lemma dbl_div_floor_ceil:
  assumes "0 < D" "D \<le> 2 ^ 27" "\<bar>n\<bar> \<le> 2 ^ 20 * D"
  shows "dbl_floor (dbl_div (Double n 0) (Double D 0)) = n div D"
    and "dbl_ceil (dbl_div (Double n 0) (Double D 0)) = - ((- n) div D)"
proof -
  define v where "v = dval (dbl_div (Double n 0) (Double D 0))"
  have goal: "\<lfloor>v\<rfloor> = n div D \<and> \<lceil>v\<rceil> = - ((- n) div D)"
  proof (cases "D dvd n")
    case True
    have "v = of_int (n div D)"
      unfolding v_def using assms(1,3) True by (rule dbl_div_int(2))
    moreover have "(- n) div D = - (n div D)"
      using True by (rule dvd_neg_div)
    ultimately show ?thesis by simp
  next
    case False
    define k where "k = n div D"
    define r where "r = n mod D"
    define x :: rat where "x = of_int n / of_int D"
    define e :: rat where "e = 1 / of_int D"
    define c :: rat where "c = 1 / 2 ^ 32"
    have D0: "(0 :: rat) < of_int D" using assms(1) by simp
    have r: "1 \<le> r" "r \<le> D - 1"
    proof -
      have "r \<noteq> 0" using False by (simp add: r_def dvd_eq_mod_eq_0)
      moreover have "0 \<le> r" "r < D" using assms(1) by (simp_all add: r_def)
      ultimately show "1 \<le> r" "r \<le> D - 1" by simp_all
    qed
    have n: "n = k * D + r" by (simp add: k_def r_def)
    have x: "x = of_int k + of_int r * e"
    proof -
      have "(of_int n :: rat) = of_int k * of_int D + of_int r"
        using n by (metis of_int_add of_int_mult)
      then show ?thesis using D0 by (simp add: x_def e_def field_simps)
    qed
    have e0: "0 < e" using D0 by (simp add: e_def)
    have De: "of_int D * e = 1" using D0 by (simp add: e_def)
    have lo: "e \<le> of_int r * e"
    proof -
      have "1 * e \<le> of_int r * e"
        using r(1) e0 by (intro mult_right_mono) simp_all
      then show ?thesis by simp
    qed
    have hi: "of_int r * e \<le> 1 - e"
    proof -
      have "of_int r * e \<le> of_int (D - 1) * e"
      proof (rule mult_right_mono)
        show "(of_int r :: rat) \<le> of_int (D - 1)" using r(2) by (simp only: of_int_le_iff)
        show "0 \<le> e" using e0 by simp
      qed
      also have "\<dots> = of_int D * e - e" by (simp add: algebra_simps)
      finally show ?thesis using De by simp
    qed
    have ce: "c < e"
    proof -
      have "(of_int D :: rat) \<le> of_int (2 ^ 27)"
        using assms(2) by (simp only: of_int_le_iff)
      then have "(of_int D :: rat) \<le> 2 ^ 27" by simp
      then have "1 / 2 ^ 27 \<le> e"
        unfolding e_def using D0 by (intro divide_left_mono) simp_all
      moreover have "c < 1 / 2 ^ 27" by (simp add: c_def)
      ultimately show ?thesis by linarith
    qed
    have "\<bar>v - x\<bar> \<le> c"
      unfolding v_def x_def c_def using assms(1,3) by (rule dbl_div_int(1))
    then have v: "of_int k < v" "v < of_int k + 1"
      using x lo hi ce by linarith+
    have f: "\<lfloor>v\<rfloor> = k" using v by (intro floor_unique) simp_all
    have g: "\<lceil>v\<rceil> = k + 1" using v by (intro ceiling_unique) simp_all
    have "n mod D \<noteq> 0" using False by (simp add: dvd_eq_mod_eq_0)
    then have "(- n) div D = - (n div D) - 1"
      using assms(1) by (simp add: zdiv_zminus1_eq_if)
    then show ?thesis using f g by (simp add: k_def)
  qed
  show "dbl_floor (dbl_div (Double n 0) (Double D 0)) = n div D"
    using goal by (simp add: dbl_floor_dval v_def)
  show "dbl_ceil (dbl_div (Double n 0) (Double D 0)) = - ((- n) div D)"
    using goal by (simp add: dbl_ceil_dval v_def)
qed

lemma dbl_sub_int:
  assumes "\<bar>a - b\<bar> < 2 ^ 53"
  shows "dbl_sub (Double a 0) (Double b 0) = Double (a - b) 0"
proof -
  have "bitlen \<bar>a - b\<bar> \<le> 53"
    using assms by (simp add: bitlen_le_iff_power)
  then show ?thesis
    by (simp add: dbl_sub_def dbl_neg_def dbl_add_def round_to_53_def)
qed

lemma dbl_add_int:
  assumes "\<bar>a + b\<bar> < 2 ^ 53"
  shows "dbl_add (Double a 0) (Double b 0) = Double (a + b) 0"
proof -
  have "bitlen \<bar>a + b\<bar> \<le> 53"
    using assms by (simp add: bitlen_le_iff_power)
  then show ?thesis
    by (simp add: dbl_add_def round_to_53_def)
qed

section \<open>The solar-term formula\<close>

lemma literal_near_error:
  assumes "literal_near (n, k)" "dbl_of_decimal (n, k) = Double m e"
  shows "\<bar>dval (Double m e) - rat_of_decimal (n, k)\<bar> \<le> 2 powi (e - 1) \<and> e \<le> - 48"
proof -
  have e: "e < 0" and b: "\<bar>2 * m * 10 ^ k - n * 2 ^ nat (1 - e)\<bar> \<le> 10 ^ k"
    using assms by (simp_all add: literal_near_def)
  have e48: "e \<le> - 48" using assms by (simp add: literal_near_def)
  define t :: rat where "t = 2 ^ nat (1 - e)"
  define d :: rat where "d = 10 ^ k"
  have t: "0 < t" and d: "0 < d" by (simp_all add: t_def d_def)
  have p1: "(2 :: rat) powi e = 2 / t"
  proof -
    have "(2 :: rat) powi e = 2 powi (1 + - (1 - e))" by simp
    also have "\<dots> = 2 powi 1 * 2 powi (- (1 - e))" by (rule power_int_add) simp
    also have "(2 :: rat) powi (- (1 - e)) = inverse (2 powi (1 - e))" by (rule power_int_minus)
    also have "(2 :: rat) powi (1 - e) = t" using e by (simp add: t_def power_int_def)
    finally show ?thesis by (simp add: divide_inverse)
  qed
  have p2: "(2 :: rat) powi (e - 1) = 1 / t"
  proof -
    have "(2 :: rat) powi (e - 1) = 2 powi (- (1 - e))" by simp
    also have "\<dots> = inverse (2 powi (1 - e))" by (rule power_int_minus)
    also have "(2 :: rat) powi (1 - e) = t" using e by (simp add: t_def power_int_def)
    finally show ?thesis by (simp add: divide_inverse)
  qed
  have "(of_int \<bar>2 * m * 10 ^ k - n * 2 ^ nat (1 - e)\<bar> :: rat) \<le> of_int (10 ^ k)"
    using b by (simp only: of_int_le_iff)
  then have b': "\<bar>2 * of_int m * d - of_int n * t\<bar> \<le> d"
    by (simp add: t_def d_def)
  have "dval (Double m e) - rat_of_decimal (n, k) = (2 * of_int m * d - of_int n * t) / (t * d)"
    using t d by (simp add: dval_Double rat_of_decimal_def p1 field_simps flip: d_def)
  then have "\<bar>dval (Double m e) - rat_of_decimal (n, k)\<bar>
      = \<bar>2 * of_int m * d - of_int n * t\<bar> / (t * d)"
    using t d by (simp add: abs_mult)
  also have "\<dots> \<le> d / (t * d)"
    using b' t d by (intro divide_right_mono) simp_all
  also have "\<dots> = 1 / t" using d by simp
  finally show ?thesis using e48 by (simp add: p2)
qed

lemma frac_criterion:
  fixes Y N :: int
  assumes "0 \<le> Y" "Y \<le> 99" "(Y * 2422 + N) mod 10000 = 0"
  shows "even N \<and> (- (N div 2) * 1891) mod 5000 = Y"
proof -
  from assms(3) obtain q where q: "Y * 2422 + N = 10000 * q"
    by (auto simp: mod_eq_0_iff_dvd)
  then have N: "N = 2 * (5000 * q - 1211 * Y)" by simp
  then have ev: "even N" by simp
  have "N div 2 = 5000 * q - 1211 * Y" using N by simp
  then have "- (N div 2) * 1891 = Y + (458 * Y - 1891 * q) * 5000" by simp
  then have "(- (N div 2) * 1891) mod 5000 = Y mod 5000" by (simp only: mod_mult_self1)
  then show ?thesis using ev assms(1,2) by (simp add: mod_pos_pos_trivial)
qed

lemma floor_between:
  fixes v ex :: rat and E :: int
  assumes ex: "ex = of_int E / 10000" and r: "E mod 10000 \<noteq> 0"
    and close: "\<bar>v - ex\<bar> \<le> 1 / 2 ^ 46"
  shows "\<lfloor>v\<rfloor> = \<lfloor>ex\<rfloor>"
proof -
  define N where "N = E div 10000"
  define r where "r = E mod 10000"
  have E: "E = 10000 * N + r" by (simp add: N_def r_def)
  have rb: "1 \<le> r" "r \<le> 9999"
    using r pos_mod_bound [of 10000 E] pos_mod_sign [of 10000 E] by (simp_all add: r_def)
  have ex': "ex = of_int N + of_int r / 10000" by (simp add: ex E)
  have "(1 :: rat) \<le> of_int r" "(of_int r :: rat) \<le> 9999"
    using rb by simp_all
  then have lo: "of_int N + 1 / 10000 \<le> ex" and hi: "ex \<le> of_int N + 9999 / 10000"
    by (simp_all add: ex')
  have small: "(1 :: rat) / 2 ^ 46 < 1 / 10000" by simp
  have "\<lfloor>ex\<rfloor> = N" using lo hi by (intro floor_unique) linarith+
  moreover have "\<lfloor>v\<rfloor> = N" using lo hi close small by (intro floor_unique) linarith+
  ultimately show ?thesis by simp
qed

lemma sum_floor_exact:
  fixes Y n :: int and k :: nat
  assumes Y: "0 \<le> Y" "Y \<le> 99"
    and x: "\<bar>dval X - 2422 / 10000\<bar> \<le> 1 / 2 ^ 56"
    and c: "\<bar>dval Cd - of_int n / 10 ^ k\<bar> \<le> 1 / 2 ^ 49" "0 \<le> n" "n \<le> 25 * 10 ^ k" "k \<le> 4"
    and frac: "(Y * 2422 + n * 10 ^ (4 - k)) mod 10000 \<noteq> 0"
  shows "dbl_floor (dbl_add (dbl_mul (dbl_of_int Y) X) Cd)
     = \<lfloor>of_int Y * (2422 / 10000) + of_int n / 10 ^ k :: rat\<rfloor>"
proof -
  define P where "P = dbl_mul (dbl_of_int Y) X"
  define S where "S = dbl_add P Cd"
  define y :: rat where "y = of_int Y"
  define cd :: rat where "cd = of_int n / 10 ^ k"
  define q :: rat where "q = 2422 / 10000"
  have x: "\<bar>dval X - q\<bar> \<le> 1 / 2 ^ 56" using x by (simp only: q_def)
  have qv: "q \<le> 1 / 4 - 1 / 1000" "1 / 1000 \<le> q" by (simp_all add: q_def)
  have yb: "0 \<le> y" "y \<le> 99" using Y by (simp_all add: y_def)
  have dY: "dval (dbl_of_int Y) = y"
    using Y by (simp add: dbl_of_int_exact dval_Double y_def)
  have n56: "(1 :: rat) / 2 ^ 56 \<le> 1 / 1000" and n49: "(1 :: rat) / 2 ^ 49 \<le> 1 / 1000"
    by simp_all
  have xb: "0 \<le> dval X" "dval X \<le> 1 / 4" using x n56 qv by linarith+
  have yx0: "0 \<le> y * dval X" using yb xb by simp
  have yx1: "y * dval X \<le> 99 * (1 / 4)" using yb xb by (intro mult_mono) simp_all
  have "\<bar>dval (dbl_of_int Y) * dval X\<bar> < 2 powi 5"
    unfolding dY using yx0 yx1 by simp
  then have "\<bar>dval P - dval (dbl_of_int Y) * dval X\<bar> \<le> 2 powi (5 - 54)"
    unfolding P_def by (rule dbl_mul_error)
  then have p: "\<bar>dval P - y * dval X\<bar> \<le> 1 / 2 ^ 49"
    by (simp add: dY power_int_minus_divide)
  have "y * dval X - y * q = y * (dval X - q)" by (simp only: right_diff_distrib)
  then have "\<bar>y * dval X - y * q\<bar> = y * \<bar>dval X - q\<bar>"
    using yb by (simp only: abs_mult abs_of_nonneg)
  also have "\<dots> \<le> 99 * (1 / 2 ^ 56)"
    using yb x by (intro mult_mono) simp_all
  finally have yxe: "\<bar>y * dval X - y * q\<bar> \<le> 99 / 2 ^ 56" by simp
  have cdb: "0 \<le> cd" "cd \<le> 25"
  proof -
    show "0 \<le> cd" using c(2) by (simp add: cd_def)
    have "(of_int n :: rat) \<le> of_int (25 * 10 ^ k)" using c(3) by (simp only: of_int_le_iff)
    then show "cd \<le> 25" by (simp add: cd_def divide_le_eq)
  qed
  have c1: "\<bar>dval Cd - cd\<bar> \<le> 1 / 2 ^ 49" using c(1) by (simp add: cd_def)
  have "\<bar>dval P + dval Cd\<bar> < 64"
    using p c1 yx0 yx1 cdb n49 by linarith
  then have "\<bar>dval P + dval Cd\<bar> < 2 powi 6" by simp
  then have "\<bar>dval S - (dval P + dval Cd)\<bar> \<le> 2 powi (6 - 54)"
    unfolding S_def by (rule dbl_add_error)
  then have s: "\<bar>dval S - (dval P + dval Cd)\<bar> \<le> 1 / 2 ^ 48"
    by (simp add: power_int_minus_divide)
  have sumb: "(1 :: rat) / 2 ^ 48 + 1 / 2 ^ 49 + 99 / 2 ^ 56 + 1 / 2 ^ 49 \<le> 1 / 2 ^ 46"
    by simp
  have close: "\<bar>dval S - (y * q + cd)\<bar> \<le> 1 / 2 ^ 46"
    using s p yxe c1 sumb by linarith
  have k4: "(10 :: rat) ^ 4 = 10 ^ k * 10 ^ (4 - k)"
    using c(4) by (simp flip: power_add)
  have "cd = of_int (n * 10 ^ (4 - k)) / 10000"
  proof -
    have "of_int (n * 10 ^ (4 - k)) / (10000 :: rat)
        = (of_int n * 10 ^ (4 - k)) / (10 ^ k * 10 ^ (4 - k))"
      using k4 by simp
    also have "\<dots> = of_int n / 10 ^ k" by simp
    finally show ?thesis by (simp only: cd_def)
  qed
  then have ex: "y * q + cd = of_int (Y * 2422 + n * 10 ^ (4 - k)) / 10000"
    by (simp add: y_def q_def add_divide_distrib)
  have "\<lfloor>dval S\<rfloor> = \<lfloor>y * q + cd\<rfloor>"
    using ex frac close by (rule floor_between)
  then show ?thesis
    by (simp only: dbl_floor_dval S_def P_def y_def cd_def q_def)
qed

lemma table_ok:
  "literal_near (2422, 4) \<and> dbl_of_decimal (2422, 4) = Double 8726174637993073 (- 55) \<and>
   list_all (\<lambda>(a, b). coefficient_ok a \<and> coefficient_ok b) JIEQI_DATA"
  by code_simp

lemma literal_2422: "\<bar>dval (dbl_of_decimal (2422, 4)) - 2422 / 10000\<bar> \<le> 1 / 2 ^ 56"
proof -
  have "\<bar>dval (Double 8726174637993073 (- 55)) - rat_of_decimal (2422, 4)\<bar> \<le> 2 powi (- 55 - 1)"
    using table_ok literal_near_error [of 2422 4 8726174637993073 "- 55"] by simp
  then show ?thesis
    using table_ok by (simp add: rat_of_decimal_def power_int_minus_divide)
qed

lemma frac_free_nonzero:
  assumes "frac_free (n, k)" "0 \<le> Y" "Y \<le> 99"
  shows "(Y * 2422 + n * 10 ^ (4 - k)) mod 10000 \<noteq> 0"
proof
  assume "(Y * 2422 + n * 10 ^ (4 - k)) mod 10000 = 0"
  then have "even (n * 10 ^ (4 - k)) \<and> (- ((n * 10 ^ (4 - k)) div 2) * 1891) mod 5000 = Y"
    using assms(2,3) by (intro frac_criterion)
  moreover have "odd (n * 10 ^ (4 - k)) \<or> 99 < (- ((n * 10 ^ (4 - k)) div 2) * 1891) mod 5000"
    using assms(1) unfolding frac_free_def Let_def prod.case .
  ultimately show False using assms(3) by linarith
qed

lemma coefficient_floor:
  assumes ok: "coefficient_ok c" and Y: "0 \<le> Y" "Y \<le> 99"
  shows "dbl_floor (dbl_add (dbl_mul (dbl_of_int Y) (dbl_of_decimal (2422, 4))) (dbl_of_decimal c))
     = \<lfloor>of_int Y * rat_of_decimal (2422, 4) + rat_of_decimal c\<rfloor>"
proof -
  obtain n k where c: "c = (n, k)" by (cases c)
  obtain m e where d: "dbl_of_decimal (n, k) = Double m e" by (cases "dbl_of_decimal (n, k)")
  have near: "literal_near (n, k)" and k: "k \<le> 4"
    and n: "0 \<le> n" "n \<le> 25 * 10 ^ k" and ff: "frac_free (n, k)"
    using ok unfolding coefficient_ok_def c by simp_all
  have e: "e \<le> - 48" using literal_near_error [OF near d] by simp
  have "\<bar>dval (Double m e) - rat_of_decimal (n, k)\<bar> \<le> 2 powi (e - 1)"
    using literal_near_error [OF near d] by simp
  also have "(2 :: rat) powi (e - 1) \<le> 2 powi (- 49)"
    using e by (intro power_int_increasing) simp_all
  also have "(2 :: rat) powi (- 49) = 1 / 2 ^ 49"
    by (simp add: power_int_minus_divide)
  finally have err: "\<bar>dval (dbl_of_decimal (n, k)) - of_int n / 10 ^ k\<bar> \<le> 1 / 2 ^ 49"
    by (simp add: d rat_of_decimal_def)
  have frac: "(Y * 2422 + n * 10 ^ (4 - k)) mod 10000 \<noteq> 0"
    using ff Y by (rule frac_free_nonzero)
  have f: "rat_of_decimal (2422, 4) = 2422 / 10000"
    by (simp add: rat_of_decimal_def)
  have g: "rat_of_decimal (n, k) = of_int n / 10 ^ k"
    by (simp add: rat_of_decimal_def)
  show ?thesis
    unfolding c f g
    using Y literal_2422 err n k frac by (rule sum_floor_exact)
qed

lemma JIEQI_DATA_length: "length JIEQI_DATA = 24"
  by (simp add: JIEQI_DATA_def)

lemma JIEQI_DATA_ok:
  assumes "0 \<le> index" "index \<le> 23"
  shows "coefficient_ok (fst (JIEQI_DATA ! nat index)) \<and> coefficient_ok (snd (JIEQI_DATA ! nat index))"
proof -
  have "JIEQI_DATA ! nat index \<in> set JIEQI_DATA"
    using assms by (intro nth_mem) (simp add: JIEQI_DATA_length)
  moreover have "\<forall>r \<in> set JIEQI_DATA. coefficient_ok (fst r) \<and> coefficient_ok (snd r)"
    using table_ok by (simp add: list_all_iff case_prod_beta)
  ultimately show ?thesis by blast
qed

lemma js_rem_nonneg: "0 \<le> a \<Longrightarrow> 0 < b \<Longrightarrow> js_rem a b = a mod b"
  by (cases "a = 0") (simp_all add: js_rem_def)

lemma floor_quarter: "\<lfloor>of_int a / (4 :: rat)\<rfloor> = a div 4"
  using floor_divide_of_int_eq [of a 4, where ?'a = rat] by simp

lemma floor_quarter_pred: "\<lfloor>(of_int a - 1) / (4 :: rat)\<rfloor> = (a - 1) div 4"
  using floor_quarter [of "a - 1"] by simp

lemma correction_sum:
  "(case map_of E index of
      None \<Rightarrow> Inr jd
    | Some row \<Rightarrow>
        (case map_of row year of
           None \<Rightarrow> Inr jd
         | Some v \<Rightarrow> if v \<noteq> 0 then Inr (jd + v) else Inr jd))
   = (Inr (jd + (case map_of E index of
                   None \<Rightarrow> 0
                 | Some row \<Rightarrow> (case map_of row year of None \<Rightarrow> 0 | Some v \<Rightarrow> v)))
        :: exn + int)"
  by (simp split: option.splits)

text \<open>
  Claim C7: for every year from 1900 to 2100 and every term index from 0 to 23,
  \<open>getJieqiDate\<close> returns \<open>floor ((year mod 100) * 0.2422 + C) - L\<close> plus the correction of
  the exception table for that term and year, if there is one, where \<open>C\<close> is the
  21st-century coefficient exactly when the year is after 2000, or is 2000 with an index
  above 3, and \<open>L\<close> is \<open>floor ((Y - 1) / 4)\<close> for an index up to 3 and \<open>floor (Y / 4)\<close>
  otherwise. The code computes the product and the sum in binary64; \<open>termDate_spec\<close> is
  the formula in exact arithmetic, and the two agree.
\<close>

theorem getJieqiDate_formula:
  assumes "1900 \<le> year" "year \<le> 2100" "0 \<le> index" "index \<le> 23"
  shows "getJieqiDate year index = Inr (termDate_spec year index)"
proof -
  define Y where "Y = year mod 100"
  have Y: "0 \<le> Y" "Y \<le> 99" using pos_mod_bound [of 100 year] by (simp_all add: Y_def)
  have rem: "js_rem year 100 = Y" using assms(1) by (simp add: js_rem_nonneg Y_def)
  have idx: "(0 \<le> index \<and> index < int (length JIEQI_DATA)) = True"
    using assms(3,4) by (simp add: JIEQI_DATA_length)
  define row where "row = JIEQI_DATA ! nat index"
  define C where "C = (if year > 2000 \<or> (year = 2000 \<and> index > 3) then snd row else fst row)"
  have "coefficient_ok C"
    using JIEQI_DATA_ok [OF assms(3,4)] by (simp add: row_def C_def)
  then have fl: "dbl_floor (dbl_add (dbl_mul (dbl_of_int Y) (dbl_of_decimal (2422, 4)))
        (dbl_of_decimal C)) = \<lfloor>of_int Y * rat_of_decimal (2422, 4) + rat_of_decimal C\<rfloor>"
    using Y by (rule coefficient_floor)
  have Cr: "(if year > 2000 \<or> (year = 2000 \<and> index > 3)
      then rat_of_decimal (snd row) else rat_of_decimal (fst row)) = rat_of_decimal C"
    by (simp add: C_def)
  have code: "getJieqiDate year index =
      Inr (\<lfloor>of_int Y * rat_of_decimal (2422, 4) + rat_of_decimal C\<rfloor>
           - (if index \<le> 3 then (Y - 1) div 4 else Y div 4)
           + (case map_of JIEQI_EXCEPTIONS index of
                None \<Rightarrow> 0
              | Some row \<Rightarrow> (case map_of row year of None \<Rightarrow> 0 | Some v \<Rightarrow> v)))"
    unfolding getJieqiDate_def Let_def rem idx if_True option.case correction_sum
      row_def [symmetric] C_def [symmetric] fl ..
  have spec: "termDate_spec year index =
      \<lfloor>of_int Y * rat_of_decimal (2422, 4) + rat_of_decimal C\<rfloor>
           - (if index \<le> 3 then (Y - 1) div 4 else Y div 4)
           + (case map_of JIEQI_EXCEPTIONS index of
                None \<Rightarrow> 0
              | Some row \<Rightarrow> (case map_of row year of None \<Rightarrow> 0 | Some v \<Rightarrow> v))"
    unfolding termDate_spec_def Let_def Y_def [symmetric] row_def [symmetric] Cr
      floor_quarter floor_quarter_pred ..
  show ?thesis unfolding code spec ..
qed

theorem getJieqiDate_formula_witness:
  "getJieqiDate 2024 0 = Inr (termDate_spec 2024 0) \<and> termDate_spec 2024 0 = 6"
proof -
  have "getJieqiDate 2024 0 = Inr (termDate_spec 2024 0)"
    by (rule getJieqiDate_formula) simp_all
  moreover have "termDate_spec 2024 0 = 6"
    by code_simp
  ultimately show ?thesis by simp
qed

subsection \<open>Failures of the solar-term calculator\<close>

lemma getJieqiDate_index:
  "(index < 0 \<or> index > 23 \<longrightarrow> getJieqiDate year index = Inl TypeError) \<and>
   (0 \<le> index \<and> index \<le> 23 \<longrightarrow> (\<exists>jd. getJieqiDate year index = Inr jd))"
  by (auto simp: getJieqiDate_def Let_def JIEQI_DATA_length split: option.splits)

text \<open>
  Claim C2 says that \<open>getJieqi\<close> fails for a year outside \<open>[1900, 2100]\<close>. It does not: the
  year check of \<open>getJieqi\<close> returns \<open>null\<close>, the result for a day that is no term day.
\<close>

theorem getJieqi_null_out_of_range:
  "getJieqi 1899 1 6 = Inr None \<and> getJieqi 2101 1 5 = Inr None"
  by (simp add: getJieqi_def)

text \<open>
  Claim C2 as amended: for a year outside \<open>[1900, 2100]\<close>, \<open>getJieqi\<close> returns \<open>null\<close> and
  does not fail; \<open>getJieqiDate\<close> fails, with a \<open>TypeError\<close>, exactly when the term index
  is outside \<open>[0, 23]\<close>, whatever the year; and for a year inside the range \<open>getJieqi\<close>
  fails, with that \<open>TypeError\<close>, exactly when the month is outside \<open>[1, 12]\<close>. There is no
  other failure.
\<close>

theorem getJieqi_failure_modes:
  "(year < 1900 \<or> year > 2100 \<longrightarrow> getJieqi year month day = Inr None) \<and>
   (index < 0 \<or> index > 23 \<longrightarrow> getJieqiDate year' index = Inl TypeError) \<and>
   (0 \<le> index \<and> index \<le> 23 \<longrightarrow> (\<exists>jd. getJieqiDate year' index = Inr jd)) \<and>
   (1900 \<le> year \<and> year \<le> 2100 \<longrightarrow>
      (if month < 1 \<or> month > 12 then getJieqi year month day = Inl TypeError
       else \<exists>name. getJieqi year month day = Inr name))"
proof -
  have a: "year < 1900 \<or> year > 2100 \<longrightarrow> getJieqi year month day = Inr None"
    by (simp add: getJieqi_def)
  have d: "getJieqi year month day = Inl TypeError"
    if "1900 \<le> year" "year \<le> 2100" "month < 1 \<or> month > 12"
  proof -
    have "(month - 1) * 2 < 0 \<or> (month - 1) * 2 > 23" using that(3) by auto
    then have "getJieqiDate year ((month - 1) * 2) = Inl TypeError"
      using getJieqiDate_index [of "(month - 1) * 2" year] by blast
    then show ?thesis unfolding getJieqi_def Let_def using that(1,2) by simp
  qed
  have e: "\<exists>name. getJieqi year month day = Inr name"
    if "1900 \<le> year" "year \<le> 2100" "\<not> (month < 1 \<or> month > 12)"
  proof -
    have i1: "0 \<le> (month - 1) * 2 \<and> (month - 1) * 2 \<le> 23" using that(3) by auto
    have i2: "0 \<le> (month - 1) * 2 + 1 \<and> (month - 1) * 2 + 1 \<le> 23" using that(3) by auto
    obtain j1 where j1: "getJieqiDate year ((month - 1) * 2) = Inr j1"
      using getJieqiDate_index [of "(month - 1) * 2" year] i1 by blast
    obtain j2 where j2: "getJieqiDate year ((month - 1) * 2 + 1) = Inr j2"
      using getJieqiDate_index [of "(month - 1) * 2 + 1" year] i2 by blast
    show ?thesis unfolding getJieqi_def Let_def j1 j2 using that(1,2) by simp
  qed
  show ?thesis
    using a d e getJieqiDate_index [of index year'] by auto
qed

theorem getJieqi_failure_modes_witness:
  "getJieqi 1899 1 6 = Inr None \<and> getJieqiDate 2024 24 = Inl TypeError \<and>
   (\<exists>jd. getJieqiDate 2024 0 = Inr jd) \<and> getJieqi 2024 13 1 = Inl TypeError \<and>
   (\<exists>name. getJieqi 2024 1 6 = Inr name)"
  using getJieqi_failure_modes [of 1899 1 6 24 2024] getJieqi_failure_modes [of 2024 13 1 0 2024]
    getJieqi_failure_modes [of 2024 1 6 0 2024]
  by simp

section \<open>The host calendar\<close>

lemma div_step:
  fixes x c :: int
  assumes "0 < c"
  shows "(x + 1) div c = x div c + (if (x + 1) mod c = 0 then 1 else 0)"
proof -
  define q r where "q = x div c" and "r = x mod c"
  have x: "x = q * c + r" and r: "0 \<le> r" "r < c"
    using assms by (simp_all add: q_def r_def)
  show ?thesis
  proof (cases "r + 1 = c")
    case True
    then have "x + 1 = (q + 1) * c" using x by (simp add: algebra_simps)
    then show ?thesis using assms by (simp add: q_def)
  next
    case False
    then have lt: "r + 1 < c" using r by simp
    have e: "x + 1 = q * c + (r + 1)" using x by simp
    have d: "(x + 1) div c = q"
      unfolding e using r lt assms by (simp add: div_pos_pos_trivial)
    have m: "(x + 1) mod c = r + 1"
      unfolding e using r lt assms by (simp add: mod_pos_pos_trivial)
    show ?thesis using d m r by (simp add: q_def)
  qed
qed

lemma DayFromYear_eq:
  obtains q1 r1 q2 r2 q3 r3 where
    "DayFromYear y = 365 * (y - 1970) + q1 - q2 + q3"
    "y - 1969 = 4 * q1 + r1" "0 \<le> r1" "r1 < 4"
    "y - 1901 = 100 * q2 + r2" "0 \<le> r2" "r2 < 100"
    "y - 1601 = 400 * q3 + r3" "0 \<le> r3" "r3 < 400"
proof -
  define q1 r1 q2 r2 q3 r3 where "q1 = (y - 1969) div 4" and "r1 = (y - 1969) mod 4"
    and "q2 = (y - 1901) div 100" and "r2 = (y - 1901) mod 100"
    and "q3 = (y - 1601) div 400" and "r3 = (y - 1601) mod 400"
  show thesis
  proof (rule that [of q1 q2 q3 r1 r2 r3])
    show "DayFromYear y = 365 * (y - 1970) + q1 - q2 + q3"
      by (simp add: DayFromYear_def q1_def q2_def q3_def)
    show "y - 1969 = 4 * q1 + r1" by (simp add: q1_def r1_def)
    show "y - 1901 = 100 * q2 + r2" by (simp add: q2_def r2_def)
    show "y - 1601 = 400 * q3 + r3" by (simp add: q3_def r3_def)
  qed (simp_all add: r1_def r2_def r3_def)
qed

lemma DayFromYear_lower: "146097 * y - 287811596 \<le> 400 * DayFromYear y"
proof -
  obtain q1 r1 q2 r2 q3 r3 where
    "DayFromYear y = 365 * (y - 1970) + q1 - q2 + q3"
    "y - 1969 = 4 * q1 + r1" "0 \<le> r1" "r1 < 4"
    "y - 1901 = 100 * q2 + r2" "0 \<le> r2" "r2 < 100"
    "y - 1601 = 400 * q3 + r3" "0 \<le> r3" "r3 < 400"
    by (rule DayFromYear_eq)
  then show ?thesis by (simp add: algebra_simps)
qed

lemma DayFromYear_upper: "400 * DayFromYear y \<le> 146097 * y - 287810501"
proof -
  obtain q1 r1 q2 r2 q3 r3 where
    "DayFromYear y = 365 * (y - 1970) + q1 - q2 + q3"
    "y - 1969 = 4 * q1 + r1" "0 \<le> r1" "r1 < 4"
    "y - 1901 = 100 * q2 + r2" "0 \<le> r2" "r2 < 100"
    "y - 1601 = 400 * q3 + r3" "0 \<le> r3" "r3 < 400"
    by (rule DayFromYear_eq)
  then show ?thesis by (simp add: algebra_simps)
qed

lemma mod_shift: "(y - a + 1) mod c = (y::int) mod c" if "(a - 1) mod c = 0"
proof -
  from that obtain k where k: "a - 1 = c * k" by (auto simp: mod_eq_0_iff_dvd)
  have "y - a + 1 = y + (- k) * c" using k by (simp add: algebra_simps)
  also have "\<dots> mod c = y mod c" by (rule mod_mult_self1)
  finally show ?thesis .
qed

lemma m4: "(y - 1969 + 1) mod 4 = (y::int) mod 4" by (rule mod_shift) simp
lemma m100: "(y - 1901 + 1) mod 100 = (y::int) mod 100" by (rule mod_shift) simp
lemma m400: "(y - 1601 + 1) mod 400 = (y::int) mod 400" by (rule mod_shift) simp

lemma mod_coarser: "(y::int) mod (c * k) = 0 \<Longrightarrow> y mod c = 0"
  by (auto simp: mod_eq_0_iff_dvd elim: dvd_mult_left)

lemma m400_100: "(y::int) mod 400 = 0 \<Longrightarrow> y mod 100 = 0"
  using mod_coarser [of y 100 4] by simp
lemma m100_4: "(y::int) mod 100 = 0 \<Longrightarrow> y mod 4 = 0"
  using mod_coarser [of y 4 25] by simp

lemma DayFromYear_Suc: "DayFromYear (y + 1) = DayFromYear y + DaysInYear y"
proof -
  have e: "y + 1 - 1969 = (y - 1969) + 1" "y + 1 - 1901 = (y - 1901) + 1"
    "y + 1 - 1601 = (y - 1601) + 1" by simp_all
  define i4 i100 i400 :: int where "i4 = (if y mod 4 = 0 then 1 else 0)"
    and "i100 = (if y mod 100 = 0 then 1 else 0)"
    and "i400 = (if y mod 400 = 0 then 1 else 0)"
  have s4: "(y + 1 - 1969) div 4 = (y - 1969) div 4 + i4"
    unfolding e i4_def using div_step [of 4 "y - 1969"] by (simp only: m4)
  have s100: "(y + 1 - 1901) div 100 = (y - 1901) div 100 + i100"
    unfolding e i100_def using div_step [of 100 "y - 1901"] by (simp only: m100)
  have s400: "(y + 1 - 1601) div 400 = (y - 1601) div 400 + i400"
    unfolding e i400_def using div_step [of 400 "y - 1601"] by (simp only: m400)
  have step: "DayFromYear (y + 1) = DayFromYear y + (365 + i4 - i100 + i400)"
    unfolding DayFromYear_def s4 s100 s400 by (simp add: algebra_simps)
  have "DaysInYear y = 365 + i4 - i100 + i400"
  proof (cases "y mod 400 = 0")
    case True
    then show ?thesis
      using m400_100 [of y] m100_4 [of y]
      by (simp add: DaysInYear_def InLeapYear_def i4_def i100_def i400_def)
  next
    case n400: False
    show ?thesis
    proof (cases "y mod 100 = 0")
      case True
      then show ?thesis
        using n400 m100_4 [of y]
        by (simp add: DaysInYear_def InLeapYear_def i4_def i100_def i400_def)
    next
      case False
      then show ?thesis
        using n400
        by (simp add: DaysInYear_def InLeapYear_def i4_def i100_def i400_def)
    qed
  qed
  with step show ?thesis by simp
qed

lemma YearFromDay_DayFromYear:
  assumes "0 \<le> k" "k < DaysInYear y"
  shows "YearFromDay (DayFromYear y + k) = y"
proof -
  define d where "d = DayFromYear y + k"
  define q r where "q = (400 * d) div 146097" and "r = (400 * d) mod 146097"
  define y0 where "y0 = 1970 + q"
  have k365: "k \<le> 365" using assms by (simp add: DaysInYear_def split: if_splits)
  have qr: "400 * d = 146097 * q + r" "0 \<le> r" "r < 146097"
    by (simp_all add: q_def r_def)
  have lo: "146097 * y - 287957187 \<le> 400 * d"
    using DayFromYear_lower [of y] assms(1) by (simp add: d_def)
  have hi: "400 * d < 146097 * y - 287518896"
    using DayFromYear_upper [of y] k365 by (simp add: d_def)
  have "y - 1971 \<le> q" using lo qr by linarith
  moreover have "q < y - 1968" using hi qr by linarith
  ultimately have y0: "y0 = y - 1 \<or> y0 = y \<or> y0 = y + 1"
    unfolding y0_def by linarith
  have nxt: "DayFromYear (y + 1) = DayFromYear y + DaysInYear y"
    by (rule DayFromYear_Suc)
  have prv: "DayFromYear y = DayFromYear (y - 1) + DaysInYear (y - 1)"
    using DayFromYear_Suc [of "y - 1"] by simp
  have pos: "0 < DaysInYear (y - 1)"
    by (simp add: DaysInYear_def)
  have unf: "YearFromDay d =
      (if d < DayFromYear y0 then y0 - 1 else if DayFromYear (y0 + 1) \<le> d then y0 + 1 else y0)"
    by (simp add: YearFromDay_def Let_def y0_def q_def)
  from y0 have "YearFromDay d = y"
  proof (elim disjE)
    assume "y0 = y - 1"
    then show ?thesis unfolding unf using prv pos assms by (simp add: d_def)
  next
    assume "y0 = y"
    then show ?thesis unfolding unf using nxt assms by (simp add: d_def)
  next
    assume "y0 = y + 1"
    then show ?thesis unfolding unf using nxt assms by (simp add: d_def)
  qed
  then show ?thesis by (simp add: d_def)
qed

lemma DayWithinYear_DayFromYear:
  "0 \<le> k \<Longrightarrow> k < DaysInYear y \<Longrightarrow> DayWithinYear (DayFromYear y + k) = k"
  by (simp add: DayWithinYear_def YearFromDay_DayFromYear)

lemma Day_msPerDay: "Day (x * msPerDay) = x"
  by (simp add: Day_def msPerDay_def)

lemma DateFromDay_in_year:
  assumes "0 \<le> k" "k < DaysInYear Y"
  shows "DateFromDay (DayFromYear Y + k) =
     (let leap = (if InLeapYear Y then 1 else 0) in
      if k < 31 then k + 1 else if k < 59 + leap then k - 30
      else if k < 90 + leap then k - (58 + leap) else if k < 120 + leap then k - (89 + leap)
      else if k < 151 + leap then k - (119 + leap) else if k < 181 + leap then k - (150 + leap)
      else if k < 212 + leap then k - (180 + leap) else if k < 243 + leap then k - (211 + leap)
      else if k < 273 + leap then k - (242 + leap) else if k < 304 + leap then k - (272 + leap)
      else if k < 334 + leap then k - (303 + leap) else k - (333 + leap))"
  using assms
  by (simp add: DateFromDay_def MonthFromDay_def MonthStart_def Let_def
      YearFromDay_DayFromYear DayWithinYear_DayFromYear)

lemma MakeDay_in_year:
  "0 \<le> mi \<Longrightarrow> mi \<le> 11 \<Longrightarrow> MakeDay Y mi d = DayFromYear Y + (MonthStart Y mi + d - 1)"
  by (simp add: MakeDay_def Let_def div_pos_pos_trivial mod_pos_pos_trivial)

lemma MakeDay_12: "MakeDay Y 12 d = DayFromYear Y + (DaysInYear Y + d - 1)"
  by (simp add: MakeDay_def Let_def MonthStart_def DayFromYear_Suc)

lemma MakeDay_0_0: "MakeDay Y 0 0 = DayFromYear (Y - 1) + (DaysInYear (Y - 1) - 1)"
  using DayFromYear_Suc [of "Y - 1"] by (simp add: MakeDay_def Let_def MonthStart_def)

lemma DateFromDay_month_end:
  assumes "1 \<le> m" "m \<le> 12"
  shows "DateFromDay (MakeDay Y m 0) = days_in_month Y m"
proof (cases "m = 12")
  case True
  have "DateFromDay (DayFromYear Y + (DaysInYear Y - 1)) = 31"
    by (subst DateFromDay_in_year) (simp_all add: DaysInYear_def)
  then show ?thesis using True by (simp add: MakeDay_12 days_in_month_def)
next
  case False
  then have m: "m = 1 \<or> m = 2 \<or> m = 3 \<or> m = 4 \<or> m = 5 \<or> m = 6 \<or> m = 7 \<or> m = 8
      \<or> m = 9 \<or> m = 10 \<or> m = 11"
    using assms by arith
  have e: "MakeDay Y m 0 = DayFromYear Y + (MonthStart Y m - 1)"
    using m by (subst MakeDay_in_year) auto
  have k: "0 \<le> MonthStart Y m - 1" "MonthStart Y m - 1 < DaysInYear Y"
    using m by (auto simp: MonthStart_def DaysInYear_def)
  show ?thesis
    unfolding e DateFromDay_in_year [OF k]
    using m by (auto simp: MonthStart_def days_in_month_def)
qed

lemma DateFromDay_year_end: "DateFromDay (MakeDay Y 0 0) = 31"
  unfolding MakeDay_0_0
  by (subst DateFromDay_in_year) (simp_all add: DaysInYear_def)

lemma MakeFullYear_range:
  "- 271820 \<le> year \<Longrightarrow> year \<le> 275759 \<Longrightarrow>
   - 271820 \<le> MakeFullYear year \<and> MakeFullYear year \<le> 275759"
  by (simp add: MakeFullYear_def)

lemma DayFromYear_range:
  assumes "- 271820 \<le> Y" "Y \<le> 275759"
  shows "- 99999745 \<le> DayFromYear Y" "DayFromYear Y \<le> 99999380"
  using DayFromYear_lower [of Y] DayFromYear_upper [of Y] assms by linarith+

lemma MonthStart_bounds: "0 \<le> MonthStart Y mn \<and> MonthStart Y mn \<le> 335"
  by (simp add: MonthStart_def)

lemma MakeDay_range:
  assumes "- 271820 \<le> Y" "Y \<le> 275759" "0 \<le> mi" "mi \<le> 12" "0 \<le> d" "d \<le> 31"
  shows "\<bar>MakeDay Y mi d\<bar> \<le> 100000000"
proof (cases "mi = 12")
  case True
  have "DaysInYear Y = 365 \<or> DaysInYear Y = 366" by (simp add: DaysInYear_def)
  then show ?thesis
    using DayFromYear_range [OF assms(1,2)] assms(5,6) True by (auto simp: MakeDay_12)
next
  case False
  then have "MakeDay Y mi d = DayFromYear Y + (MonthStart Y mi + d - 1)"
    using assms(3,4) by (intro MakeDay_in_year) simp_all
  then show ?thesis
    using DayFromYear_range [OF assms(1,2)] assms(5,6) MonthStart_bounds [of Y mi] by linarith
qed

lemma TimeClip_days: "\<bar>x\<bar> \<le> 100000000 \<Longrightarrow> TimeClip (x * msPerDay) = Some (x * msPerDay)"
  by (simp add: TimeClip_def msPerDay_def abs_mult)

lemma newDate_range:
  assumes "- 271820 \<le> year" "year \<le> 275759" "0 \<le> mi" "mi \<le> 12" "0 \<le> d" "d \<le> 31"
  shows "newDate year mi d = Some (MakeDay (MakeFullYear year) mi d * msPerDay)"
  unfolding newDate_def
  using MakeFullYear_range [OF assms(1,2)] assms(3-6)
  by (intro TimeClip_days MakeDay_range) simp_all

lemma getDaysInMonth_range:
  assumes "- 271820 \<le> year" "year \<le> 275759" "1 \<le> month" "month \<le> 12"
  shows "getDaysInMonth year month = Some (days_in_month (MakeFullYear year) month)"
  using assms
  by (simp add: getDaysInMonth_def getDate_def newDate_range Day_msPerDay DateFromDay_month_end)

lemma getDaysInMonth_0:
  assumes "- 271820 \<le> year" "year \<le> 275759"
  shows "getDaysInMonth year 0 = Some 31"
  using assms
  by (simp add: getDaysInMonth_def getDate_def newDate_range Day_msPerDay DateFromDay_year_end)

lemma getFirstDayOfWeek_range:
  assumes "- 271820 \<le> year" "year \<le> 275759" "1 \<le> month" "month \<le> 12"
  shows "\<exists>f. getFirstDayOfWeek year month = Some f \<and> 0 \<le> f \<and> f \<le> 6"
  using assms
  by (simp add: getFirstDayOfWeek_def getDay_def newDate_range WeekDay_def)

lemma build_loop_length:
  "length (build_loop year month firstDay daysInMonth daysInPrevMonth i day nextMonthDay grid)
     = length grid + nat (42 - i)"
proof (induction "nat (42 - i)" arbitrary: i day nextMonthDay grid)
  case 0
  then show ?case by (simp add: build_loop.simps)
next
  case (Suc k)
  then have i: "i < 42" and k: "k = nat (42 - (i + 1))" by linarith+
  show ?case
    by (subst build_loop.simps) (use i Suc.hyps(1) [OF k] in \<open>simp add: nat_diff_distrib\<close>)
qed

lemma buildCalendarGrid_length: "length (buildCalendarGrid year month) = 42"
  by (simp add: buildCalendarGrid_def build_loop_length)

lemma build_loop_closed:
  assumes "0 \<le> n" "0 \<le> i"
    and "day = 1 + max 0 (min (i - f) n)" and "nextMonthDay = 1 + max 0 (i - f - n)"
  shows "build_loop year month (Some f) (Some n) (Some p) i day nextMonthDay grid
     = grid @ map (grid_cell year month f n p) [i..41]"
  using assms
proof (induction "nat (42 - i)" arbitrary: i day nextMonthDay grid)
  case 0
  then show ?case by (simp add: build_loop.simps)
next
  case (Suc k)
  then have i: "i < 42" and k: "k = nat (42 - (i + 1))" by linarith+
  have up: "[i..41] = i # [i + 1..41]" using i by (simp add: upto_rec1)
  note IH = Suc.hyps(1) [OF k \<open>0 \<le> n\<close>]
  show ?case
  proof (cases "i < f")
    case True
    with Suc.prems i show ?thesis
      by (subst build_loop.simps) (simp add: up IH num_lt_def num_add_def num_sub_def grid_cell_def)
  next
    case False
    show ?thesis
    proof (cases "i - f + 1 \<le> n")
      case True
      with False Suc.prems i show ?thesis
        by (subst build_loop.simps)
           (simp add: up IH num_lt_def num_le_def grid_cell_def min_def max_def)
    next
      case nxt: False
      with False Suc.prems i show ?thesis
        by (subst build_loop.simps)
           (simp add: up IH num_lt_def num_le_def grid_cell_def min_def max_def)
    qed
  qed
qed

lemma buildCalendarGrid_closed:
  assumes "getFirstDayOfWeek year month = Some f" "getDaysInMonth year month = Some n"
    "getDaysInMonth year (month - 1) = Some p" "0 \<le> n" "0 \<le> f"
  shows "buildCalendarGrid year month = map (grid_cell year month f n p) [0..41]"
  using assms by (simp add: buildCalendarGrid_def build_loop_closed min_def max_def)

lemma grid_nth:
  assumes "0 \<le> i" "i < 42"
  shows "map g [0..41] ! nat i = g i"
  using assms by simp

section \<open>The calendar grid\<close>

lemma days_in_month_bounds: "28 \<le> days_in_month y m \<and> days_in_month y m \<le> 31"
  by (simp add: days_in_month_def)

lemma InLeapYear_two_digit:
  assumes "1 \<le> y" "y \<le> 99"
  shows "InLeapYear (1900 + y) = InLeapYear y"
proof -
  have 4: "(1900 + y) mod 4 = y mod 4"
    using mod_mult_self1 [of y 475 4] by (simp add: add.commute)
  have 100: "(1900 + y) mod 100 = y mod 100"
    using mod_mult_self1 [of y 19 100] by (simp add: add.commute)
  have "y mod 100 = y" using assms by (simp add: mod_pos_pos_trivial)
  then have "y mod 100 \<noteq> 0" using assms by simp
  then show ?thesis by (simp add: InLeapYear_def 4 100)
qed

lemma days_in_month_MakeFullYear:
  "year \<noteq> 0 \<or> m \<noteq> 2 \<Longrightarrow> days_in_month (MakeFullYear year) m = days_in_month year m"
  using InLeapYear_two_digit [of year]
  by (auto simp: days_in_month_def MakeFullYear_def)

lemma prev_len_bounds: "28 \<le> prev_len year month \<and> prev_len year month \<le> 31"
  by (simp add: prev_len_def days_in_month_bounds)

lemma next_len_bounds: "28 \<le> next_len year month \<and> next_len year month \<le> 31"
  by (simp add: next_len_def days_in_month_bounds)

lemma grid_cell_prev:
  assumes "i < f"
  shows "cell_date (grid_cell year month f n p i) =
     Some (if month = 1 then year - 1 else year, if month = 1 then 12 else month - 1,
           p - f + i + 1)"
  using assms by (simp add: grid_cell_def cell_date_def)

lemma grid_cell_cur:
  assumes "f \<le> i" "i - f + 1 \<le> n"
  shows "cell_date (grid_cell year month f n p i) = Some (year, month, i - f + 1)"
  using assms by (simp add: grid_cell_def cell_date_def)

lemma grid_cell_nxt:
  assumes "f \<le> i" "n < i - f + 1"
  shows "cell_date (grid_cell year month f n p i) =
     Some (if month = 12 then year + 1 else year, if month = 12 then 1 else month + 1,
           i - f - n + 1)"
  using assms by (simp add: grid_cell_def cell_date_def)

lemma grid_cell_valid:
  assumes f: "0 \<le> f" "f \<le> 6" and m: "1 \<le> month" "month \<le> 12" and i: "0 \<le> i" "i < 42"
    and n: "n = days_in_month year month" and p: "p = prev_len year month"
  shows "\<exists>y m d. cell_date (grid_cell year month f n p i) = Some (y, m, d) \<and> valid_date y m d"
proof -
  have nb: "28 \<le> n" "n \<le> 31" using days_in_month_bounds [of year month] n by simp_all
  have pb: "28 \<le> p" using prev_len_bounds [of year month] p by simp
  consider (prev) "i < f" | (cur) "f \<le> i" "i - f + 1 \<le> n" | (nxt) "f \<le> i" "n < i - f + 1"
    by linarith
  then show ?thesis
  proof cases
    case prev
    have "valid_date (if month = 1 then year - 1 else year) (if month = 1 then 12 else month - 1)
        (p - f + i + 1)"
      using prev f m i pb by (simp add: valid_date_def p prev_len_def)
    then show ?thesis unfolding grid_cell_prev [OF prev] by blast
  next
    case cur
    have "valid_date year month (i - f + 1)"
      using cur m by (simp add: valid_date_def n)
    then show ?thesis unfolding grid_cell_cur [OF cur] by blast
  next
    case nxt
    have "i - f - n + 1 \<le> next_len year month"
      using next_len_bounds [of year month] nb f i by linarith
    then have "valid_date (if month = 12 then year + 1 else year)
        (if month = 12 then 1 else month + 1) (i - f - n + 1)"
      using nxt m by (simp add: valid_date_def next_len_def)
    then show ?thesis unfolding grid_cell_nxt [OF nxt] by blast
  qed
qed

lemma grid_cell_next:
  assumes f: "0 \<le> f" "f \<le> 6" and m: "1 \<le> month" "month \<le> 12" and i: "0 \<le> i" "i < 41"
    and n: "n = days_in_month year month" and p: "p = prev_len year month"
  shows "cell_date (grid_cell year month f n p (i + 1))
     = map_option next_day (cell_date (grid_cell year month f n p i))"
proof -
  have nb: "28 \<le> n" "n \<le> 31" using days_in_month_bounds [of year month] n by simp_all
  have pb: "28 \<le> p" using prev_len_bounds [of year month] p by simp
  consider (pp) "i + 1 < f" | (pc) "i + 1 = f"
    | (cc) "f \<le> i" "i + 1 - f + 1 \<le> n" | (cn) "f \<le> i" "i - f + 1 = n"
    | (nn) "f \<le> i" "n < i - f + 1"
    by linarith
  then show ?thesis
  proof cases
    case pp
    then have a: "i < f" by simp
    show ?thesis
      unfolding grid_cell_prev [OF pp] grid_cell_prev [OF a]
      using pp by (simp add: next_day_def p prev_len_def)
  next
    case pc
    then have a: "i < f" and b: "f \<le> i + 1" "i + 1 - f + 1 \<le> n" using nb by simp_all
    show ?thesis
      unfolding grid_cell_prev [OF a] grid_cell_cur [OF b]
      using pc m by (simp add: next_day_def p prev_len_def)
  next
    case cc
    then have a: "f \<le> i" "i - f + 1 \<le> n" and b: "f \<le> i + 1" "i + 1 - f + 1 \<le> n" by simp_all
    show ?thesis
      unfolding grid_cell_cur [OF a] grid_cell_cur [OF b]
      using cc by (simp add: next_day_def n)
  next
    case cn
    then have a: "f \<le> i" "i - f + 1 \<le> n" and b: "f \<le> i + 1" "n < i + 1 - f + 1" by simp_all
    have e: "i + 1 - f - n + 1 = 1" "\<not> i - f + 1 < days_in_month year month"
      using cn n by simp_all
    show ?thesis
      unfolding grid_cell_cur [OF a] grid_cell_nxt [OF b] e
      using m e(2) by (auto simp: next_day_def)
  next
    case nn
    then have b: "f \<le> i + 1" "n < i + 1 - f + 1" by simp_all
    have "i - f - n + 1 < next_len year month"
      using next_len_bounds [of year month] nb f i by linarith
    then show ?thesis
      unfolding grid_cell_nxt [OF nn] grid_cell_nxt [OF b]
      by (simp add: next_day_def next_len_def)
  qed
qed

lemma getDaysInMonth_prev:
  assumes "- 271820 \<le> year" "year \<le> 275759" "1 \<le> month" "month \<le> 12"
    and "year \<noteq> 0 \<or> month \<noteq> 3"
  shows "getDaysInMonth year (month - 1) = Some (prev_len year month)"
proof (cases "month = 1")
  case True
  then show ?thesis
    using getDaysInMonth_0 [OF assms(1,2)] by (simp add: prev_len_def days_in_month_def)
next
  case False
  then have "getDaysInMonth year (month - 1) = Some (days_in_month (MakeFullYear year) (month - 1))"
    using assms by (intro getDaysInMonth_range) simp_all
  moreover have "days_in_month (MakeFullYear year) (month - 1) = days_in_month year (month - 1)"
    using assms(5) by (intro days_in_month_MakeFullYear) auto
  ultimately show ?thesis using False by (simp add: prev_len_def)
qed

text \<open>
  Claim C8: for every \<open>(year, month)\<close> with the month in \<open>[1, 12]\<close>, \<open>buildCalendarGrid\<close> returns
  exactly 42 cells, and the cell at the index \<open>getFirstDayOfWeek year month\<close> has day 1 and
  is of the current month. The years are those whose months the host \<open>Date\<close> represents,
  from \<open>- 271820\<close> to 275759; the length is 42 for every input
  (\<open>buildCalendarGrid_length\<close>).
\<close>

theorem buildCalendarGrid_first_day:
  assumes "1 \<le> month" "month \<le> 12" "- 271820 \<le> year" "year \<le> 275759"
  shows "length (buildCalendarGrid year month) = 42 \<and>
    (\<exists>f. getFirstDayOfWeek year month = Some f \<and> 0 \<le> f \<and> f \<le> 6 \<and>
       cell_day (buildCalendarGrid year month ! nat f) = Some 1 \<and>
       isCurrentMonth (buildCalendarGrid year month ! nat f))"
proof -
  obtain f where f: "getFirstDayOfWeek year month = Some f" "0 \<le> f" "f \<le> 6"
    using getFirstDayOfWeek_range [OF assms(3,4,1,2)] by blast
  define n where "n = days_in_month (MakeFullYear year) month"
  have n: "getDaysInMonth year month = Some n"
    unfolding n_def by (rule getDaysInMonth_range [OF assms(3,4,1,2)])
  have nb: "28 \<le> n" unfolding n_def using days_in_month_bounds by simp
  obtain p where p: "getDaysInMonth year (month - 1) = Some p"
  proof (cases "month = 1")
    case True
    then show ?thesis using getDaysInMonth_0 [OF assms(3,4)] that by simp
  next
    case False
    then have "getDaysInMonth year (month - 1) = Some (days_in_month (MakeFullYear year) (month - 1))"
      using assms by (intro getDaysInMonth_range) simp_all
    then show ?thesis using that by simp
  qed
  have g: "buildCalendarGrid year month = map (grid_cell year month f n p) [0..41]"
    using f n p nb by (intro buildCalendarGrid_closed) simp_all
  have "buildCalendarGrid year month ! nat f = grid_cell year month f n p f"
    unfolding g using f by (intro grid_nth) simp_all
  then have "cell_day (buildCalendarGrid year month ! nat f) = Some 1"
    "isCurrentMonth (buildCalendarGrid year month ! nat f)"
    using nb by (simp_all add: grid_cell_def)
  then show ?thesis using f by (simp add: buildCalendarGrid_length)
qed

theorem buildCalendarGrid_first_day_witness:
  "length (buildCalendarGrid 2024 2) = 42 \<and>
    (\<exists>f. getFirstDayOfWeek 2024 2 = Some f \<and> 0 \<le> f \<and> f \<le> 6 \<and>
       cell_day (buildCalendarGrid 2024 2 ! nat f) = Some 1 \<and>
       isCurrentMonth (buildCalendarGrid 2024 2 ! nat f))"
  using buildCalendarGrid_first_day [of 2 2024] by simp

text \<open>
  Away from February and March of the year 0, and for the years that the host \<open>Date\<close>
  represents in full, from \<open>- 271820\<close> to 275759, the grid has 42 cells; the cells before
  index \<open>f\<close>, the first weekday, carry the previous month (December of the year before,
  when the month is January), the next \<open>n\<close> cells, \<open>n\<close> being the length of the month,
  carry the month itself and are the cells of the current month, and the cells after them
  carry the next month (January of the year after, when the month is December); every
  cell is a valid date, and each cell is the day after the cell before it.
\<close>

lemma buildCalendarGrid_dates:
  assumes "1 \<le> month" "month \<le> 12" "- 271820 \<le> year" "year \<le> 275759"
    and "year \<noteq> 0 \<or> (month \<noteq> 2 \<and> month \<noteq> 3)"
  shows "\<exists>g f n. g = buildCalendarGrid year month \<and> length g = 42 \<and>
    getFirstDayOfWeek year month = Some f \<and> 0 \<le> f \<and> f \<le> 6 \<and>
    getDaysInMonth year month = Some n \<and> n = days_in_month year month \<and>
    (\<forall>i<42.
       isCurrentMonth (g ! i) = (f \<le> int i \<and> int i < f + n) \<and>
       cell_year (g ! i) =
         (if int i < f then (if month = 1 then year - 1 else year)
          else if int i < f + n then year
          else (if month = 12 then year + 1 else year)) \<and>
       cell_month (g ! i) =
         (if int i < f then (if month = 1 then 12 else month - 1)
          else if int i < f + n then month
          else (if month = 12 then 1 else month + 1)) \<and>
       (\<exists>y m d. cell_date (g ! i) = Some (y, m, d) \<and> valid_date y m d)) \<and>
    (\<forall>i<41. cell_date (g ! Suc i) = map_option next_day (cell_date (g ! i)))"
proof -
  obtain f where f: "getFirstDayOfWeek year month = Some f" "0 \<le> f" "f \<le> 6"
    using getFirstDayOfWeek_range [OF assms(3,4,1,2)] by blast
  define n where "n = days_in_month year month"
  define p where "p = prev_len year month"
  have "days_in_month (MakeFullYear year) month = n"
    unfolding n_def using assms(5) by (intro days_in_month_MakeFullYear) auto
  then have n: "getDaysInMonth year month = Some n"
    using getDaysInMonth_range [OF assms(3,4,1,2)] by simp
  have nb: "28 \<le> n" unfolding n_def using days_in_month_bounds by simp
  have p: "getDaysInMonth year (month - 1) = Some p"
    unfolding p_def using assms by (intro getDaysInMonth_prev) auto
  define g where "g = buildCalendarGrid year month"
  have g: "g = map (grid_cell year month f n p) [0..41]"
    unfolding g_def using f n p nb by (intro buildCalendarGrid_closed) simp_all
  have nth: "g ! i = grid_cell year month f n p (int i)" if "i < 42" for i
    using grid_nth [of "int i" "grid_cell year month f n p"] that by (simp add: g)
  have cells: "isCurrentMonth (g ! i) = (f \<le> int i \<and> int i < f + n) \<and>
       cell_year (g ! i) =
         (if int i < f then (if month = 1 then year - 1 else year)
          else if int i < f + n then year
          else (if month = 12 then year + 1 else year)) \<and>
       cell_month (g ! i) =
         (if int i < f then (if month = 1 then 12 else month - 1)
          else if int i < f + n then month
          else (if month = 12 then 1 else month + 1)) \<and>
       (\<exists>y m d. cell_date (g ! i) = Some (y, m, d) \<and> valid_date y m d)" if "i < 42" for i
  proof -
    have v: "\<exists>y m d. cell_date (grid_cell year month f n p (int i)) = Some (y, m, d) \<and> valid_date y m d"
      using f assms(1,2) that by (intro grid_cell_valid) (simp_all add: n_def p_def)
    show ?thesis
      unfolding nth [OF that] using v by (auto simp: grid_cell_def)
  qed
  have succ: "cell_date (g ! Suc i) = map_option next_day (cell_date (g ! i))" if "i < 41" for i
  proof -
    have "cell_date (grid_cell year month f n p (int i + 1))
        = map_option next_day (cell_date (grid_cell year month f n p (int i)))"
      using f assms(1,2) that by (intro grid_cell_next) (simp_all add: n_def p_def)
    then show ?thesis using nth [of i] nth [of "Suc i"] that by (simp add: add.commute)
  qed
  have len: "length g = 42" by (simp add: g_def buildCalendarGrid_length)
  show ?thesis
    using f n len cells succ by (intro exI [of _ g] exI [of _ f] exI [of _ n]) (simp add: g_def n_def)
qed

lemma buildCalendarGrid_dates_2024_2:
  "\<exists>g f n. g = buildCalendarGrid 2024 2 \<and> length g = 42 \<and>
    getFirstDayOfWeek 2024 2 = Some f \<and> 0 \<le> f \<and> f \<le> 6 \<and>
    getDaysInMonth 2024 2 = Some n \<and> n = days_in_month 2024 2 \<and>
    (\<forall>i<42.
       isCurrentMonth (g ! i) = (f \<le> int i \<and> int i < f + n) \<and>
       cell_year (g ! i) =
         (if int i < f then (if (2 :: int) = 1 then 2024 - 1 else 2024)
          else if int i < f + n then 2024
          else (if (2 :: int) = 12 then 2024 + 1 else 2024)) \<and>
       cell_month (g ! i) =
         (if int i < f then (if (2 :: int) = 1 then 12 else 2 - 1)
          else if int i < f + n then 2
          else (if (2 :: int) = 12 then 1 else 2 + 1)) \<and>
       (\<exists>y m d. cell_date (g ! i) = Some (y, m, d) \<and> valid_date y m d)) \<and>
    (\<forall>i<41. cell_date (g ! Suc i) = map_option next_day (cell_date (g ! i)))"
  by (rule buildCalendarGrid_dates [of 2 2024]) simp_all

text \<open>
  Claim C10: for every \<open>(year, month)\<close> the cells outside the current month carry the year
  and month of the previous and of the next month, wrapped at January and December, and
  the 42 cells are 42 consecutive valid calendar dates in order. The code does not do
  this for March of the year 0. \<open>getDaysInMonth\<close> is to give the number of days of the
  given year and month, but the \<open>Date\<close> constructor reads a year from 0 to 99 as 1900 plus
  that year, and 1900 is not a leap year while the year 0 is: \<open>getDaysInMonth 0 2\<close> is 28
  and not 29, so the cell at index 3 of \<open>buildCalendarGrid 0 3\<close> is the 28th of February
  and the cell at index 4 is the 1st of March, although the day after the 28th of
  February of the year 0 is the 29th, a valid date.
\<close>

theorem buildCalendarGrid_year_0:
  "getDaysInMonth 0 2 = Some 28 \<and> days_in_month 0 2 = 29 \<and>
   cell_date (buildCalendarGrid 0 3 ! 3) = Some (0, 2, 28) \<and>
   cell_date (buildCalendarGrid 0 3 ! 4) = Some (0, 3, 1) \<and>
   valid_date 0 2 29 \<and> next_day (0, 2, 28) = (0, 2, 29)"
  by code_simp

section \<open>The week number\<close>

lemma ceil_seventh: "- ((- v) div 7) = \<lceil>of_int v / (7 :: rat)\<rceil>"
proof -
  have "\<lceil>of_int v / (7 :: rat)\<rceil> = - \<lfloor>of_int (- v) / (of_int 7 :: rat)\<rfloor>"
    by (simp add: ceiling_def)
  also have "\<dots> = - ((- v) div 7)"
    by (simp only: floor_divide_of_int_eq)
  finally show ?thesis by simp
qed

lemma MonthStart_step:
  assumes "1 \<le> m" "m \<le> 11"
  shows "MonthStart Y m = MonthStart Y (m - 1) + days_in_month Y m"
proof -
  have "m = 1 \<or> m = 2 \<or> m = 3 \<or> m = 4 \<or> m = 5 \<or> m = 6 \<or> m = 7 \<or> m = 8
      \<or> m = 9 \<or> m = 10 \<or> m = 11"
    using assms by arith
  then show ?thesis by (auto simp: MonthStart_def days_in_month_def)
qed

lemma TimeClip_Some: "TimeClip t = Some a \<Longrightarrow> a = t \<and> \<bar>a\<bar> \<le> 8640000000000000"
  by (simp add: TimeClip_def split: if_splits)

lemma dbl_of_int_time: "\<bar>a\<bar> \<le> 8640000000000000 \<Longrightarrow> dbl_of_int a = Double a 0"
  by (rule dbl_of_int_exact) simp

lemma div_day_bounds:
  fixes n :: int
  assumes "\<bar>n\<bar> \<le> 2 ^ 20 * 86400000"
  shows "\<bar>n div 86400000\<bar> \<le> 2 ^ 20"
proof -
  have "n div 86400000 \<le> (2 ^ 20 * 86400000) div (86400000 :: int)"
    using assms by (intro zdiv_mono1) simp_all
  moreover have "(- (2 ^ 20 * 86400000)) div (86400000 :: int) \<le> n div 86400000"
    using assms by (intro zdiv_mono1) simp_all
  ultimately show ?thesis by simp
qed

lemma WeekDay_bounds: "0 \<le> WeekDay d \<and> WeekDay d \<le> 6"
  by (simp add: WeekDay_def)

text \<open>When both dates are valid and less than \<open>2 ^ 20\<close> days apart, the week number is the
  one of the integer formula: the day of the year is the floor of the difference over
  the length of a day, plus 1.\<close>

lemma getWeekNumber_value:
  assumes "newDateIn z year (m - 1) d = Some a" "newDateIn z year 0 1 = Some b"
    and "\<bar>a - b\<bar> \<le> 2 ^ 20 * 86400000"
  shows "getWeekNumber z year m d =
     Some (- ((- ((a - b) div 86400000 + 1 + WeekDay (Day (LocalTime z b)))) div 7))"
proof -
  define f where "f = (a - b) div 86400000"
  define w where "w = WeekDay (Day (LocalTime z b))"
  have a: "\<bar>a\<bar> \<le> 8640000000000000"
    using assms(1) TimeClip_Some [of _ a] by (simp add: newDateIn_def)
  have b: "\<bar>b\<bar> \<le> 8640000000000000"
    using assms(2) TimeClip_Some [of _ b] by (simp add: newDateIn_def)
  have g: "getDayIn z (Some b) = Some w" by (simp add: getDayIn_def w_def)
  have w: "0 \<le> w" "w \<le> 6" using WeekDay_bounds [of "Day (LocalTime z b)"] by (simp_all add: w_def)
  have f: "\<bar>f\<bar> \<le> 2 ^ 20" unfolding f_def using assms(3) by (rule div_day_bounds)
  have s: "dbl_sub (dbl_of_int a) (dbl_of_int b) = Double (a - b) 0"
    unfolding dbl_of_int_time [OF a] dbl_of_int_time [OF b]
    using assms(3) by (intro dbl_sub_int) simp
  have c: "dbl_of_int 86400000 = Double 86400000 0" by (rule dbl_of_int_exact) simp
  have q: "dbl_floor (dbl_div (Double (a - b) 0) (Double 86400000 0)) = f"
    unfolding f_def using assms(3) by (intro dbl_div_floor_ceil(1)) simp_all
  have i: "dbl_of_int f = Double f 0" using f by (intro dbl_of_int_exact) simp
  have one: "dbl_of_int 1 = Double 1 0" by (rule dbl_of_int_exact) simp
  have dy: "dbl_add (Double f 0) (Double 1 0) = Double (f + 1) 0"
    using f by (intro dbl_add_int) simp
  have ow: "dbl_of_int w = Double w 0" using w by (intro dbl_of_int_exact) simp
  have su: "dbl_add (Double (f + 1) 0) (Double w 0) = Double (f + 1 + w) 0"
    using f w by (intro dbl_add_int) simp
  have seven: "dbl_of_int 7 = Double 7 0" by (rule dbl_of_int_exact) simp
  have r: "dbl_ceil (dbl_div (Double (f + 1 + w) 0) (Double 7 0)) = - ((- (f + 1 + w)) div 7)"
    using f w by (intro dbl_div_floor_ceil(2)) simp_all
  have "getWeekNumber z year m d = Some (- ((- (f + 1 + w)) div 7))"
    unfolding getWeekNumber_def Let_def assms(1,2) g
    by (simp only: prod.case option.case s c q i one dy ow su seven r)
  then show ?thesis by (simp only: f_def w_def)
qed

lemma getWeekNumber_Some:
  assumes "getWeekNumber z year m d = Some w"
  shows "\<exists>a b. newDateIn z year (m - 1) d = Some a \<and> newDateIn z year 0 1 = Some b"
  using assms by (simp add: getWeekNumber_def Let_def split: option.splits)

lemma zone_ok_offset: "zone_ok z \<Longrightarrow> \<bar>z t False\<bar> \<le> msPerDay"
  by (simp add: zone_ok_def)

lemma zone_ok_order: "zone_ok z \<Longrightarrow> a + msPerDay \<le> b \<Longrightarrow> UTC z a \<le> UTC z b"
  by (simp add: zone_ok_def)

lemma newDateIn_Some:
  "newDateIn z year mi d = Some a \<Longrightarrow> a = UTC z (MakeDay (MakeFullYear year) mi d * msPerDay)"
  by (simp add: newDateIn_def TimeClip_def split: if_splits)

lemma MakeDay_year_range:
  assumes "- 271820 \<le> Y" "Y \<le> 275759" "0 \<le> mi" "mi \<le> 11" "1 \<le> d" "d \<le> 31"
  shows "\<bar>MakeDay Y mi d\<bar> \<le> 99999999"
proof -
  have "MakeDay Y mi d = DayFromYear Y + (MonthStart Y mi + d - 1)"
    using assms(3,4) by (intro MakeDay_in_year) simp_all
  then show ?thesis
    using DayFromYear_range [OF assms(1,2)] assms(5,6) MonthStart_bounds [of Y mi] by linarith
qed

lemma newDateIn_range:
  assumes "zone_ok z" "- 271820 \<le> year" "year \<le> 275759" "0 \<le> mi" "mi \<le> 11" "1 \<le> d" "d \<le> 31"
  shows "\<exists>a. newDateIn z year mi d = Some a"
proof -
  define x where "x = MakeDay (MakeFullYear year) mi d"
  have x: "\<bar>x\<bar> \<le> 99999999"
    unfolding x_def using MakeFullYear_range [OF assms(2,3)] assms(4-7)
    by (intro MakeDay_year_range) simp_all
  have "\<bar>z (x * msPerDay) False\<bar> \<le> msPerDay" using assms(1) by (rule zone_ok_offset)
  then have "\<bar>UTC z (x * msPerDay)\<bar> \<le> 8640000000000000"
    using x by (simp add: UTC_def msPerDay_def)
  then show ?thesis by (simp add: newDateIn_def TimeClip_def x_def)
qed

lemma next_day_same_year:
  assumes "valid_date year m d" "next_day (year, m, d) = (year, m', d')"
  shows "(d < days_in_month year m \<and> m' = m \<and> d' = d + 1) \<or>
         (d = days_in_month year m \<and> m < 12 \<and> m' = m + 1 \<and> d' = 1)"
proof (cases "d < days_in_month year m")
  case True
  then show ?thesis using assms(2) by (simp add: next_day_def)
next
  case False
  then have d: "d = days_in_month year m" using assms(1) by (simp add: valid_date_def)
  show ?thesis
  proof (cases "m < 12")
    case True
    then show ?thesis using assms(2) d by (simp add: next_day_def)
  next
    case False
    then show ?thesis using assms(2) d by (simp add: next_day_def)
  qed
qed

lemma days_in_month_MakeFullYear_le:
  "days_in_month year m \<le> days_in_month (MakeFullYear year) m + 1"
  by (simp add: days_in_month_def)

lemma next_day_MakeDay:
  assumes "valid_date year m d" and "next_day (year, m, d) = (year, m', d')"
  shows "1 \<le> m' \<and> m' \<le> 12 \<and> 1 \<le> d' \<and> d' \<le> 31 \<and>
      MakeDay (MakeFullYear year) (m - 1) d \<le> MakeDay (MakeFullYear year) (m' - 1) d'"
proof -
  define Y where "Y = MakeFullYear year"
  have m: "1 \<le> m" "m \<le> 12" and d: "1 \<le> d" "d \<le> days_in_month year m"
    using assms(1) by (simp_all add: valid_date_def)
  have d31: "d \<le> 31" using d days_in_month_bounds [of year m] by linarith
  have "1 \<le> m' \<and> m' \<le> 12 \<and> 1 \<le> d' \<and> d' \<le> 31 \<and>
      MakeDay Y (m - 1) d \<le> MakeDay Y (m' - 1) d'"
    using next_day_same_year [OF assms(1,2)]
  proof (elim disjE conjE)
    assume same: "d < days_in_month year m" "m' = m" "d' = d + 1"
    have "MakeDay Y (m - 1) d \<le> MakeDay Y (m' - 1) d'"
      using same by (simp add: MakeDay_def Let_def)
    then show ?thesis
      using same m d d31 days_in_month_bounds [of year m] by simp
  next
    assume month: "d = days_in_month year m" "m < 12" "m' = m + 1" "d' = 1"
    have "MakeDay Y (m - 1) d = DayFromYear Y + (MonthStart Y (m - 1) + d - 1)"
      using m month by (intro MakeDay_in_year) simp_all
    moreover have "MakeDay Y (m' - 1) d' = DayFromYear Y + (MonthStart Y m + 1 - 1)"
      using m month MakeDay_in_year [of m Y 1] by simp
    moreover have "MonthStart Y m = MonthStart Y (m - 1) + days_in_month Y m"
      using m month by (intro MonthStart_step) simp_all
    moreover have "d \<le> days_in_month Y m + 1"
      using month days_in_month_MakeFullYear_le [of year m] by (simp add: Y_def)
    ultimately have "MakeDay Y (m - 1) d \<le> MakeDay Y (m' - 1) d'"
      by linarith
    then show ?thesis using month m by simp
  qed
  then show ?thesis by (simp only: Y_def)
qed

lemma MakeDay_day_of_year:
  assumes "1 \<le> m" "m \<le> 12" "1 \<le> d" "d \<le> 31"
  shows "0 \<le> MakeDay Y (m - 1) d - MakeDay Y 0 1 \<and> MakeDay Y (m - 1) d - MakeDay Y 0 1 \<le> 365"
proof -
  have "MakeDay Y (m - 1) d = DayFromYear Y + (MonthStart Y (m - 1) + d - 1)"
    using assms(1,2) by (intro MakeDay_in_year) simp_all
  moreover have "MakeDay Y 0 1 = DayFromYear Y"
    by (simp add: MakeDay_def MonthStart_def)
  ultimately show ?thesis
    using MonthStart_bounds [of Y "m - 1"] assms(3,4) by linarith
qed

lemma same_year_difference:
  assumes "zone_ok z" "1 \<le> m" "m \<le> 12" "1 \<le> d" "d \<le> 31"
    and "newDateIn z year (m - 1) d = Some a" "newDateIn z year 0 1 = Some b"
  shows "\<bar>a - b\<bar> \<le> 2 ^ 20 * 86400000"
proof -
  define L where "L = MakeDay (MakeFullYear year) (m - 1) d"
  define L0 where "L0 = MakeDay (MakeFullYear year) 0 1"
  define za where "za = z (L * 86400000) False"
  define zb where "zb = z (L0 * 86400000) False"
  have a: "a = L * 86400000 - za"
    using newDateIn_Some [OF assms(6)] by (simp add: UTC_def L_def msPerDay_def za_def)
  have b: "b = L0 * 86400000 - zb"
    using newDateIn_Some [OF assms(7)] by (simp add: UTC_def L0_def msPerDay_def zb_def)
  have "\<bar>za\<bar> \<le> 86400000" "\<bar>zb\<bar> \<le> 86400000"
    using zone_ok_offset [OF assms(1)] by (simp_all add: msPerDay_def za_def zb_def)
  moreover have "0 \<le> L - L0 \<and> L - L0 \<le> 365"
    unfolding L_def L0_def using assms(2-5) by (rule MakeDay_day_of_year)
  ultimately have "\<bar>a - b\<bar> \<le> 90596966400000"
    unfolding a b by linarith
  then show ?thesis by simp
qed

lemma week_pair:
  assumes "zone_ok z" and "valid_date year m d" and "next_day (year, m, d) = (year, m', d')"
    and "newDateIn z year (m - 1) d = Some a" "newDateIn z year (m' - 1) d' = Some a'"
    and "newDateIn z year 0 1 = Some b"
  shows "\<exists>w w'. getWeekNumber z year m d = Some w \<and> getWeekNumber z year m' d' = Some w' \<and> w \<le> w'"
proof -
  define L where "L = MakeDay (MakeFullYear year) (m - 1) d"
  define L' where "L' = MakeDay (MakeFullYear year) (m' - 1) d'"
  define off where "off = WeekDay (Day (LocalTime z b))"
  have m: "1 \<le> m" "m \<le> 12" and d: "1 \<le> d" "d \<le> days_in_month year m"
    using assms(2) by (simp_all add: valid_date_def)
  have d31: "d \<le> 31" using d days_in_month_bounds [of year m] by linarith
  have n: "1 \<le> m'" "m' \<le> 12" "1 \<le> d'" "d' \<le> 31" and LL: "L \<le> L'"
    using next_day_MakeDay [OF assms(2,3)] by (simp_all add: L_def L'_def)
  have a: "a = UTC z (L * msPerDay)"
    using newDateIn_Some [OF assms(4)] by (simp add: L_def)
  have a': "a' = UTC z (L' * msPerDay)"
    using newDateIn_Some [OF assms(5)] by (simp add: L'_def)
  have aa: "a \<le> a'"
  proof (cases "L = L'")
    case True
    then show ?thesis by (simp add: a a')
  next
    case False
    then have "L + 1 \<le> L'" using LL by simp
    then have "L * msPerDay + msPerDay \<le> L' * msPerDay"
      by (simp add: msPerDay_def)
    then show ?thesis unfolding a a' using assms(1) by (intro zone_ok_order)
  qed
  have w: "getWeekNumber z year m d = Some (- ((- ((a - b) div 86400000 + 1 + off)) div 7))"
    unfolding off_def
    using assms(4,6) same_year_difference [OF assms(1) m d(1) d31 assms(4,6)]
    by (rule getWeekNumber_value)
  have w': "getWeekNumber z year m' d' = Some (- ((- ((a' - b) div 86400000 + 1 + off)) div 7))"
    unfolding off_def
    using assms(5,6) same_year_difference [OF assms(1) n assms(5,6)]
    by (rule getWeekNumber_value)
  have "(a - b) div 86400000 \<le> (a' - b) div 86400000"
    using aa by (intro zdiv_mono1) simp_all
  then have "(- ((a' - b) div 86400000 + 1 + off)) div 7 \<le> (- ((a - b) div 86400000 + 1 + off)) div 7"
    by (intro zdiv_mono1) simp_all
  then show ?thesis unfolding w w' by simp
qed

text \<open>Both zones of the example qualify. On the UTC host the constructor and \<open>getDay\<close>
  are those of the first section, and on the last day of June 2024 the week number is 27
  there and 26 in New York, where the day of the year is one less while daylight time
  lasts.\<close>

lemma zone_ok_utc_zone: "zone_ok utc_zone"
  by (simp add: zone_ok_def utc_zone_def UTC_def msPerDay_def)

lemma zone_ok_new_york_2024: "zone_ok new_york_2024"
  by (simp add: zone_ok_def new_york_2024_def UTC_def msPerDay_def)

lemma newDateIn_utc_zone: "newDateIn utc_zone year monthIndex day = newDate year monthIndex day"
  by (simp add: newDateIn_def newDate_def utc_zone_def UTC_def)

lemma getDayIn_utc_zone: "getDayIn utc_zone t = getDay t"
  by (simp add: getDayIn_def getDay_def utc_zone_def LocalTime_def)

lemma getWeekNumber_daylight_time:
  "getWeekNumber utc_zone 2024 6 30 = Some 27 \<and> getWeekNumber new_york_2024 2024 6 30 = Some 26"
  by code_simp

text \<open>
  Claim C9: for two consecutive calendar days of the same year, the week number of
  \<open>getWeekNumber\<close>, the ceiling of the day of the year plus the weekday of the 1st of
  January, over 7 (\<open>getWeekNumber_value\<close> and \<open>ceil_seventh\<close>), does not decrease from the
  first day to the second. The host may have any zone whose offsets are at most a day
  and keep local times that are a day apart in order (\<open>zone_ok\<close>), with or without
  daylight time. In every year the week number of the second day is not less than that
  of the first; in the years that the host \<open>Date\<close> represents in full, from
  \<open>- 271820\<close> to 275759, both are numbers and the second is greater than or equal to the
  first.
\<close>

theorem getWeekNumber_monotone:
  assumes "zone_ok z" and "valid_date year m d" and "next_day (year, m, d) = (year, m', d')"
  shows "\<not> num_lt (getWeekNumber z year m' d') (getWeekNumber z year m d) \<and>
     (- 271820 \<le> year \<and> year \<le> 275759 \<longrightarrow>
        (\<exists>w w'. getWeekNumber z year m d = Some w \<and> getWeekNumber z year m' d' = Some w' \<and>
           w \<le> w'))"
proof
  show "\<not> num_lt (getWeekNumber z year m' d') (getWeekNumber z year m d)"
  proof (cases "getWeekNumber z year m d")
    case None
    then show ?thesis by (simp add: num_lt_def split: option.splits)
  next
    case (Some w)
    note first = this
    show ?thesis
    proof (cases "getWeekNumber z year m' d'")
      case None
      then show ?thesis by (simp add: num_lt_def)
    next
      case (Some w')
      obtain a b where ab: "newDateIn z year (m - 1) d = Some a" "newDateIn z year 0 1 = Some b"
        using getWeekNumber_Some [OF first] by blast
      obtain a' where ab': "newDateIn z year (m' - 1) d' = Some a'"
        using getWeekNumber_Some [OF Some] by blast
      show ?thesis
        using week_pair [OF assms ab(1) ab' ab(2)] first Some by (auto simp: num_lt_def)
    qed
  qed
  show "- 271820 \<le> year \<and> year \<le> 275759 \<longrightarrow>
        (\<exists>w w'. getWeekNumber z year m d = Some w \<and> getWeekNumber z year m' d' = Some w' \<and>
           w \<le> w')"
  proof
    assume y: "- 271820 \<le> year \<and> year \<le> 275759"
    have m: "1 \<le> m" "m \<le> 12" and d: "1 \<le> d" "d \<le> days_in_month year m"
      using assms(2) by (simp_all add: valid_date_def)
    have d31: "d \<le> 31" using d days_in_month_bounds [of year m] by linarith
    have n: "1 \<le> m'" "m' \<le> 12" "1 \<le> d'" "d' \<le> 31"
      using next_day_MakeDay [OF assms(2,3)] by simp_all
    obtain a where a: "newDateIn z year (m - 1) d = Some a"
      using newDateIn_range [of z year "m - 1" d] assms(1) y m d(1) d31 by auto
    obtain a' where a': "newDateIn z year (m' - 1) d' = Some a'"
      using newDateIn_range [of z year "m' - 1" d'] assms(1) y n by auto
    obtain b where b: "newDateIn z year 0 1 = Some b"
      using newDateIn_range [of z year 0 1] assms(1) y by auto
    show "\<exists>w w'. getWeekNumber z year m d = Some w \<and> getWeekNumber z year m' d' = Some w' \<and>
           w \<le> w'"
      using assms a a' b by (rule week_pair)
  qed
qed

theorem getWeekNumber_monotone_witness:
  "zone_ok new_york_2024 \<and> valid_date 2024 3 10 \<and> next_day (2024, 3, 10) = (2024, 3, 11) \<and>
   \<not> num_lt (getWeekNumber new_york_2024 2024 3 11) (getWeekNumber new_york_2024 2024 3 10) \<and>
   (\<exists>w w'. getWeekNumber new_york_2024 2024 3 10 = Some w \<and>
      getWeekNumber new_york_2024 2024 3 11 = Some w' \<and> w \<le> w')"
proof -
  have v: "valid_date 2024 3 10" by code_simp
  have n: "next_day (2024, 3, 10) = (2024, 3, 11)" by code_simp
  show ?thesis
    using getWeekNumber_monotone [OF zone_ok_new_york_2024 v n] zone_ok_new_york_2024 v n
    by simp
qed

end
